theory Spec2Isabelle
  imports Complex_Main
begin

section \<open>JavaScript numbers\<close>

text \<open>
  The timeline engine computes with JavaScript numbers.  The model keeps the three
  non-finite values (\<open>NaN\<close>, \<open>-Infinity\<close>, \<open>+Infinity\<close>) apart from the finite
  ones and computes the finite ones exactly, as rationals: rounding errors of the
  binary64 format are not part of the model, and the two zeros are identified
  (a division by zero yields the infinity with the sign of the dividend).
\<close>

datatype jsnum = NaN | NInf | PInf | Fin rat

fun jisNaN :: "jsnum \<Rightarrow> bool" where
  "jisNaN NaN = True"
| "jisNaN _ = False"

fun jneg :: "jsnum \<Rightarrow> jsnum" where
  "jneg NaN = NaN"
| "jneg NInf = PInf"
| "jneg PInf = NInf"
| "jneg (Fin a) = Fin (- a)"

fun jadd :: "jsnum \<Rightarrow> jsnum \<Rightarrow> jsnum" where
  "jadd (Fin a) (Fin b) = Fin (a + b)"
| "jadd NaN _ = NaN"
| "jadd _ NaN = NaN"
| "jadd PInf NInf = NaN"
| "jadd NInf PInf = NaN"
| "jadd PInf _ = PInf"
| "jadd _ PInf = PInf"
| "jadd NInf _ = NInf"
| "jadd _ NInf = NInf"

definition jsub :: "jsnum \<Rightarrow> jsnum \<Rightarrow> jsnum" where
  "jsub a b = jadd a (jneg b)"

text \<open>The sign of a number that is not \<open>NaN\<close>: \<open>-1\<close>, \<open>0\<close> or \<open>1\<close>.\<close>

fun jsign :: "jsnum \<Rightarrow> int" where
  "jsign NaN = 0"
| "jsign NInf = - 1"
| "jsign PInf = 1"
| "jsign (Fin a) = (if a < 0 then - 1 else if a = 0 then 0 else 1)"

definition inf_of_sign :: "int \<Rightarrow> jsnum" where
  "inf_of_sign s = (if s = 0 then NaN else if s < 0 then NInf else PInf)"

fun jmul :: "jsnum \<Rightarrow> jsnum \<Rightarrow> jsnum" where
  "jmul (Fin a) (Fin b) = Fin (a * b)"
| "jmul NaN _ = NaN"
| "jmul _ NaN = NaN"
| "jmul a b = inf_of_sign (jsign a * jsign b)"

fun jdiv :: "jsnum \<Rightarrow> jsnum \<Rightarrow> jsnum" where
  "jdiv (Fin a) (Fin b) = (if b = 0 then inf_of_sign (jsign (Fin a)) else Fin (a / b))"
| "jdiv NaN _ = NaN"
| "jdiv _ NaN = NaN"
| "jdiv (Fin a) _ = Fin 0"
| "jdiv a (Fin b) = inf_of_sign (jsign a * (if b < 0 then - 1 else 1))"
| "jdiv _ _ = NaN"

text \<open>The comparisons \<open><\<close>, \<open>>\<close> and \<open>===\<close>: false as soon as an operand is \<open>NaN\<close>.\<close>

fun jlt :: "jsnum \<Rightarrow> jsnum \<Rightarrow> bool" where
  "jlt (Fin a) (Fin b) = (a < b)"
| "jlt NaN _ = False"
| "jlt _ NaN = False"
| "jlt NInf NInf = False"
| "jlt NInf _ = True"
| "jlt PInf _ = False"
| "jlt _ PInf = True"
| "jlt _ NInf = False"

definition jgt :: "jsnum \<Rightarrow> jsnum \<Rightarrow> bool" where
  "jgt a b = jlt b a"

definition jle :: "jsnum \<Rightarrow> jsnum \<Rightarrow> bool" where
  "jle a b = (\<not> jisNaN a \<and> \<not> jisNaN b \<and> \<not> jlt b a)"

definition jeq :: "jsnum \<Rightarrow> jsnum \<Rightarrow> bool" where
  "jeq a b = (\<not> jisNaN a \<and> a = b)"

text \<open>\<open>Math.max\<close> and \<open>Math.min\<close> of two numbers: \<open>NaN\<close> if either is.\<close>

definition jmax :: "jsnum \<Rightarrow> jsnum \<Rightarrow> jsnum" where
  "jmax a b = (if jisNaN a \<or> jisNaN b then NaN else if jlt a b then b else a)"

definition jmin :: "jsnum \<Rightarrow> jsnum \<Rightarrow> jsnum" where
  "jmin a b = (if jisNaN a \<or> jisNaN b then NaN else if jlt b a then b else a)"

text \<open>\<open>Math.round\<close>: the nearest integer, a tie going up.\<close>

fun jround :: "jsnum \<Rightarrow> jsnum" where
  "jround (Fin a) = Fin (of_int \<lfloor>a + 1 / 2\<rfloor>)"
| "jround a = a"

text \<open>The remainder \<open>%\<close>, with the sign of the dividend.\<close>

fun jrem :: "jsnum \<Rightarrow> jsnum \<Rightarrow> jsnum" where
  "jrem (Fin a) (Fin b) =
     (if b = 0 then NaN
      else Fin (a - b * of_int (if 0 \<le> a / b then \<lfloor>a / b\<rfloor> else \<lceil>a / b\<rceil>)))"
| "jrem NaN _ = NaN"
| "jrem _ NaN = NaN"
| "jrem (Fin a) _ = Fin a"
| "jrem _ _ = NaN"

text \<open>
  \<open>ToIntegerOrInfinity\<close> restricted to the finite numbers (truncation towards zero);
  \<open>None\<close> stands for an argument that is not finite, which every date operation
  below turns into an invalid date.
\<close>

definition trunc_rat :: "rat \<Rightarrow> int" where
  "trunc_rat a = (if 0 \<le> a then \<lfloor>a\<rfloor> else \<lceil>a\<rceil>)"

fun toInteger :: "jsnum \<Rightarrow> int option" where
  "toInteger (Fin a) = Some (trunc_rat a)"
| "toInteger _ = None"

text \<open>Truthiness of a number, as \<open>||\<close> tests it: \<open>0\<close> and \<open>NaN\<close> are falsy.\<close>

fun jtruthy :: "jsnum \<Rightarrow> bool" where
  "jtruthy NaN = False"
| "jtruthy (Fin a) = (a \<noteq> 0)"
| "jtruthy _ = True"

section \<open>Dates\<close>

text \<open>
  A \<open>Date\<close> holds a time value: an integral number of milliseconds since the epoch,
  or \<open>NaN\<close> (an invalid date).  The calendar follows the ECMAScript definitions
  (\<open>Day\<close>, \<open>DayFromYear\<close>, \<open>YearFromTime\<close>, \<open>MonthFromTime\<close>, \<open>DateFromTime\<close>,
  \<open>MakeDay\<close>, \<open>MakeTime\<close>, \<open>TimeClip\<close>).  The host's time zone is taken to be UTC, so
  local time is the time value itself.
\<close>

datatype date = Invalid | At int

definition msPerDay :: int where "msPerDay = 86400000"
definition msPerHour :: int where "msPerHour = 3600000"
definition msPerMinute :: int where "msPerMinute = 60000"
definition msPerSecond :: int where "msPerSecond = 1000"

definition Day :: "int \<Rightarrow> int" where
  "Day t = t div msPerDay"

definition TimeWithinDay :: "int \<Rightarrow> int" where
  "TimeWithinDay t = t mod msPerDay"

definition DayFromYear :: "int \<Rightarrow> int" where
  "DayFromYear y =
     365 * (y - 1970) + (y - 1969) div 4 - (y - 1901) div 100 + (y - 1601) div 400"

definition InLeapYear :: "int \<Rightarrow> bool" where
  "InLeapYear y = (if y mod 4 \<noteq> 0 then False else if y mod 100 \<noteq> 0 then True
                   else y mod 400 = 0)"

text \<open>
  \<open>YearFromTime\<close> is the largest year whose first day is not after the given day.
  It is computed from an estimate that is off by at most one year
  (lemma \<open>YearFromDay_bounds\<close> below shows that the result is that year).
\<close>

definition YearFromDay :: "int \<Rightarrow> int" where
  "YearFromDay d =
     (let y = 1970 + (400 * d) div 146097
      in if DayFromYear (y + 1) \<le> d then y + 1
         else if DayFromYear y \<le> d then y else y - 1)"

definition YearFromTime :: "int \<Rightarrow> int" where
  "YearFromTime t = YearFromDay (Day t)"

definition DayWithinYear :: "int \<Rightarrow> int" where
  "DayWithinYear t = Day t - DayFromYear (YearFromTime t)"

text \<open>The number of days of a year before its month \<open>m\<close> (\<open>0\<close> to \<open>12\<close>).\<close>

definition monthOffset :: "int \<Rightarrow> bool \<Rightarrow> int" where
  "monthOffset m leap =
     (let l = (if leap then 1 else 0)
      in if m \<le> 0 then 0 else if m = 1 then 31 else if m = 2 then 59 + l
         else if m = 3 then 90 + l else if m = 4 then 120 + l else if m = 5 then 151 + l
         else if m = 6 then 181 + l else if m = 7 then 212 + l else if m = 8 then 243 + l
         else if m = 9 then 273 + l else if m = 10 then 304 + l else if m = 11 then 334 + l
         else 365 + l)"

definition monthOfDay :: "int \<Rightarrow> bool \<Rightarrow> int" where
  "monthOfDay dwy leap =
     (let l = (if leap then 1 else 0)
      in if dwy < 31 then 0 else if dwy < 59 + l then 1 else if dwy < 90 + l then 2
         else if dwy < 120 + l then 3 else if dwy < 151 + l then 4 else if dwy < 181 + l then 5
         else if dwy < 212 + l then 6 else if dwy < 243 + l then 7 else if dwy < 273 + l then 8
         else if dwy < 304 + l then 9 else if dwy < 334 + l then 10 else 11)"

definition MonthFromTime :: "int \<Rightarrow> int" where
  "MonthFromTime t = monthOfDay (DayWithinYear t) (InLeapYear (YearFromTime t))"

definition DateFromTime :: "int \<Rightarrow> int" where
  "DateFromTime t =
     DayWithinYear t - monthOffset (MonthFromTime t) (InLeapYear (YearFromTime t)) + 1"

definition WeekDay :: "int \<Rightarrow> int" where
  "WeekDay t = (Day t + 4) mod 7"

definition HourFromTime :: "int \<Rightarrow> int" where
  "HourFromTime t = (t div msPerHour) mod 24"

definition MinFromTime :: "int \<Rightarrow> int" where
  "MinFromTime t = (t div msPerMinute) mod 60"

definition SecFromTime :: "int \<Rightarrow> int" where
  "SecFromTime t = (t div msPerSecond) mod 60"

definition msFromTime :: "int \<Rightarrow> int" where
  "msFromTime t = t mod msPerSecond"

definition MakeTime :: "int \<Rightarrow> int \<Rightarrow> int \<Rightarrow> int \<Rightarrow> int" where
  "MakeTime h m s milli = h * msPerHour + m * msPerMinute + s * msPerSecond + milli"

definition MakeDay :: "int \<Rightarrow> int \<Rightarrow> int \<Rightarrow> int" where
  "MakeDay year month dt =
     (let ym = year + month div 12; mn = month mod 12
      in DayFromYear ym + monthOffset mn (InLeapYear ym) + dt - 1)"

definition MakeDate :: "int \<Rightarrow> int \<Rightarrow> int" where
  "MakeDate day time = day * msPerDay + time"

definition TimeClip :: "int \<Rightarrow> date" where
  "TimeClip t = (if \<bar>t\<bar> \<le> 8640000000000000 then At t else Invalid)"

text \<open>\<open>getTime()\<close> and the comparison of two dates, which compares their time values.\<close>

fun getTime :: "date \<Rightarrow> jsnum" where
  "getTime Invalid = NaN"
| "getTime (At t) = Fin (of_int t)"

definition date_lt :: "date \<Rightarrow> date \<Rightarrow> bool" where
  "date_lt a b = jlt (getTime a) (getTime b)"

definition date_gt :: "date \<Rightarrow> date \<Rightarrow> bool" where
  "date_gt a b = jgt (getTime a) (getTime b)"

definition date_le :: "date \<Rightarrow> date \<Rightarrow> bool" where
  "date_le a b = jle (getTime a) (getTime b)"

text \<open>The getters, \<open>NaN\<close> on an invalid date.\<close>

definition field :: "(int \<Rightarrow> int) \<Rightarrow> date \<Rightarrow> jsnum" where
  "field f d = (case d of Invalid \<Rightarrow> NaN | At t \<Rightarrow> Fin (of_int (f t)))"

definition getFullYear :: "date \<Rightarrow> jsnum" where "getFullYear = field YearFromTime"
definition getMonth :: "date \<Rightarrow> jsnum" where "getMonth = field MonthFromTime"
definition getDate :: "date \<Rightarrow> jsnum" where "getDate = field DateFromTime"
definition getDay :: "date \<Rightarrow> jsnum" where "getDay = field WeekDay"
definition getHours :: "date \<Rightarrow> jsnum" where "getHours = field HourFromTime"
definition getMinutes :: "date \<Rightarrow> jsnum" where "getMinutes = field MinFromTime"
definition getSeconds :: "date \<Rightarrow> jsnum" where "getSeconds = field SecFromTime"

text \<open>\<open>new Date(value)\<close> for a number.\<close>

fun newDateOfNumber :: "jsnum \<Rightarrow> date" where
  "newDateOfNumber (Fin a) =
     (if \<bar>a\<bar> \<le> 8640000000000000 then At (trunc_rat a) else Invalid)"
| "newDateOfNumber _ = Invalid"

text \<open>
  \<open>new Date(year, month, date, hours, minutes, seconds, ms)\<close>: a year from \<open>0\<close> to
  \<open>99\<close> stands for \<open>1900 + year\<close>.  The first four arguments are computed in the
  source, the last three are literals.
\<close>

definition MakeFullYear :: "int \<Rightarrow> int" where
  "MakeFullYear y = (if 0 \<le> y \<and> y \<le> 99 then 1900 + y else y)"

definition newDate :: "jsnum \<Rightarrow> jsnum \<Rightarrow> jsnum \<Rightarrow> jsnum \<Rightarrow> int \<Rightarrow> int \<Rightarrow> int \<Rightarrow> date" where
  "newDate year month dt hours m s milli =
     (case (toInteger year, toInteger month, toInteger dt, toInteger hours) of
        (Some y, Some mo, Some d, Some h) \<Rightarrow>
          TimeClip (MakeDate (MakeDay (MakeFullYear y) mo d) (MakeTime h m s milli))
      | _ \<Rightarrow> Invalid)"

text \<open>
  The setters return the updated date (the source mutates a fresh copy).  Literal
  arguments are integers, computed ones are numbers; the number after a setter's name
  is the number of arguments of the call it models.
\<close>

definition setSeconds2 :: "date \<Rightarrow> int \<Rightarrow> int \<Rightarrow> date" where
  "setSeconds2 d s milli =
     (case d of Invalid \<Rightarrow> Invalid
      | At t \<Rightarrow> TimeClip (MakeDate (Day t) (MakeTime (HourFromTime t) (MinFromTime t) s milli)))"

definition setMinutes3 :: "date \<Rightarrow> int \<Rightarrow> int \<Rightarrow> int \<Rightarrow> date" where
  "setMinutes3 d m s milli =
     (case d of Invalid \<Rightarrow> Invalid
      | At t \<Rightarrow> TimeClip (MakeDate (Day t) (MakeTime (HourFromTime t) m s milli)))"

definition setMinutes1 :: "date \<Rightarrow> jsnum \<Rightarrow> date" where
  "setMinutes1 d m =
     (case (d, toInteger m) of
        (At t, Some mi) \<Rightarrow>
          TimeClip (MakeDate (Day t) (MakeTime (HourFromTime t) mi (SecFromTime t) (msFromTime t)))
      | _ \<Rightarrow> Invalid)"

definition setHours4 :: "date \<Rightarrow> int \<Rightarrow> int \<Rightarrow> int \<Rightarrow> int \<Rightarrow> date" where
  "setHours4 d h m s milli =
     (case d of Invalid \<Rightarrow> Invalid
      | At t \<Rightarrow> TimeClip (MakeDate (Day t) (MakeTime h m s milli)))"

definition setHours1 :: "date \<Rightarrow> jsnum \<Rightarrow> date" where
  "setHours1 d h =
     (case (d, toInteger h) of
        (At t, Some hr) \<Rightarrow>
          TimeClip (MakeDate (Day t) (MakeTime hr (MinFromTime t) (SecFromTime t) (msFromTime t)))
      | _ \<Rightarrow> Invalid)"

definition setDate :: "date \<Rightarrow> jsnum \<Rightarrow> date" where
  "setDate d dt =
     (case (d, toInteger dt) of
        (At t, Some n) \<Rightarrow>
          TimeClip (MakeDate (MakeDay (YearFromTime t) (MonthFromTime t) n) (TimeWithinDay t))
      | _ \<Rightarrow> Invalid)"

text \<open>The helpers of the date library that the engine calls.\<close>

definition startOfDay :: "date \<Rightarrow> date" where
  "startOfDay d = setHours4 d 0 0 0 0"

definition endOfDay :: "date \<Rightarrow> date" where
  "endOfDay d = setHours4 d 23 59 59 999"

definition addDays :: "date \<Rightarrow> int \<Rightarrow> date" where
  "addDays d amount = (if amount = 0 then d else setDate d (jadd (getDate d) (Fin (of_int amount))))"


text \<open>
  \<open>isWithinInterval(date, {start, end})\<close>: the two ends are put in order, then the
  date is compared with both.
\<close>

definition isWithinInterval :: "date \<Rightarrow> date \<Rightarrow> date \<Rightarrow> bool" where
  "isWithinInterval d start end =
     (let time = getTime d;
          startTime = (if jlt (getTime end) (getTime start) then getTime end else getTime start);
          endTime = (if jlt (getTime end) (getTime start) then getTime start else getTime end)
      in jle startTime time \<and> jle time endTime)"

section \<open>The coordinate mapper (\<open>TaskService\<close>)\<close>

datatype ViewMode = MINUTE | HOUR | DAY | WEEK | MONTH | QUARTER | YEAR

text \<open>
  The duration of the whole timeline as \<open>calculateDatesFromPosition\<close> computes it:
  the literal span of the window, replaced for the fixed-unit views by the span of
  the grid.
\<close>

definition timelineDuration :: "ViewMode \<Rightarrow> jsnum \<Rightarrow> jsnum \<Rightarrow> jsnum \<Rightarrow> jsnum" where
  "timelineDuration viewMode totalUnits timelineStartTime timelineEndTime =
     (if viewMode = WEEK then
        jmul (jmul (jmul (jmul (jmul totalUnits (Fin 7)) (Fin 24)) (Fin 60)) (Fin 60)) (Fin 1000)
      else if viewMode = DAY then
        jmul (jmul (jmul (jmul totalUnits (Fin 24)) (Fin 60)) (Fin 60)) (Fin 1000)
      else if viewMode = HOUR then
        jmul (jmul (jmul totalUnits (Fin 60)) (Fin 60)) (Fin 1000)
      else if viewMode = MINUTE then
        jmul (jmul totalUnits (Fin 60)) (Fin 1000)
      else jsub timelineEndTime timelineStartTime)"

record DateInterval =
  newStartDate :: date
  newEndDate :: date

text \<open>
  The \<open>switch\<close> of \<open>calculateDatesFromPosition\<close>: the snapped dates of each view
  mode.  The fixed-unit views read the raw \<open>left\<close> and \<open>width\<close>; the default branch
  rounds the dates computed from \<open>safeLeft\<close> and \<open>safeWidth\<close> to whole days.
\<close>

definition snapDates ::
  "ViewMode \<Rightarrow> jsnum \<Rightarrow> jsnum \<Rightarrow> date \<Rightarrow> jsnum \<Rightarrow> date \<Rightarrow> date \<Rightarrow> DateInterval" where
  "snapDates viewMode left width startDate unitWidth rawStart rawEnd =
     (case viewMode of
        MINUTE \<Rightarrow>
          (let minutesFromStart = jround (jdiv left unitWidth);
               minuteSpan = jmax (Fin 1) (jround (jdiv width unitWidth));
               baseMinute = setSeconds2 startDate 0 0;
               start1 = setMinutes1 baseMinute (jadd (getMinutes baseMinute) minutesFromStart);
               start2 = setSeconds2 start1 0 0;
               end1 = setMinutes1 start2 (jsub (jadd (getMinutes start2) minuteSpan) (Fin 1));
               end2 = setSeconds2 end1 59 999
           in \<lparr>newStartDate = start2, newEndDate = end2\<rparr>)
      | HOUR \<Rightarrow>
          (let hoursFromStart = jround (jdiv left unitWidth);
               hourSpan = jmax (Fin 1) (jround (jdiv width unitWidth));
               baseHour = setMinutes3 startDate 0 0 0;
               start1 = setHours1 baseHour (jadd (getHours baseHour) hoursFromStart);
               start2 = setMinutes3 start1 0 0 0;
               end1 = setHours1 start2 (jsub (jadd (getHours start2) hourSpan) (Fin 1));
               end2 = setMinutes3 end1 59 59 999
           in \<lparr>newStartDate = start2, newEndDate = end2\<rparr>)
      | DAY \<Rightarrow>
          (let daysFromStart = jround (jdiv left unitWidth);
               daySpan = jmax (Fin 1) (jround (jdiv width unitWidth));
               baseDate = setHours4 startDate 0 0 0 0;
               start1 = setDate baseDate (jadd (getDate baseDate) daysFromStart);
               start2 = setHours4 start1 0 0 0 0;
               end1 = setDate start2 (jsub (jadd (getDate start2) daySpan) (Fin 1));
               end2 = setHours4 end1 23 59 59 999
           in \<lparr>newStartDate = start2, newEndDate = end2\<rparr>)
      | WEEK \<Rightarrow>
          (let pixelsPerDay = jdiv unitWidth (Fin 7);
               daysFromStartWeek = jround (jdiv left pixelsPerDay);
               daySpanWeek = jmax (Fin 1) (jround (jdiv width pixelsPerDay));
               baseDateWeek = setHours4 startDate 0 0 0 0;
               start1 = setDate baseDateWeek (jadd (getDate baseDateWeek) daysFromStartWeek);
               start2 = setHours4 start1 0 0 0 0;
               end1 = setDate start2 (jsub (jadd (getDate start2) daySpanWeek) (Fin 1));
               end2 = setHours4 end1 23 59 59 999
           in \<lparr>newStartDate = start2, newEndDate = end2\<rparr>)
      | _ \<Rightarrow> \<lparr>newStartDate = startOfDay rawStart, newEndDate = endOfDay rawEnd\<rparr>)"

text \<open>
  \<open>calculateDatesFromPosition\<close>.  With dates for \<open>startDate\<close> and \<open>endDate\<close> nothing in
  the body throws, so the \<open>catch\<close> branch is not reached and is left out.
\<close>

definition calculateDatesFromPosition ::
  "jsnum \<Rightarrow> jsnum \<Rightarrow> date \<Rightarrow> date \<Rightarrow> jsnum \<Rightarrow> jsnum \<Rightarrow> ViewMode \<Rightarrow> DateInterval" where
  "calculateDatesFromPosition left width startDate endDate totalUnits unitWidth viewMode =
     (let safeLeft = (if jisNaN left then Fin 0 else left);
          safeWidth = (if jisNaN width \<or> jlt width (Fin 20) then Fin 20 else width);
          timelineStartTime = getTime startDate;
          timelineEndTime = getTime endDate;
          duration = timelineDuration viewMode totalUnits timelineStartTime timelineEndTime;
          msPerPixel = jdiv duration (jmul totalUnits unitWidth);
          startOffset = jmul safeLeft msPerPixel;
          durationMs = jmul safeWidth msPerPixel;
          rawStart = newDateOfNumber (jadd timelineStartTime startOffset);
          rawEnd = newDateOfNumber (jadd (jadd timelineStartTime startOffset) durationMs);
          snapped = snapDates viewMode left width startDate unitWidth rawStart rawEnd;
          clampedStart =
            (if date_lt (newStartDate snapped) startDate then startDate else newStartDate snapped);
          clampedEnd =
            (if date_gt (newEndDate snapped) endDate then endDate else newEndDate snapped)
      in \<lparr>newStartDate = clampedStart, newEndDate = clampedEnd\<rparr>)"

text \<open>
  A task is read through its two date fields only; a field may hold something that is
  not a \<open>Date\<close>, which \<open>calculateTaskPixelPosition\<close> tests with \<open>instanceof\<close>.
\<close>

datatype jsvalue = DateObject date | NotADate

record Task =
  task_startDate :: jsvalue
  task_endDate :: jsvalue

record PixelInterval =
  leftPx :: jsnum
  widthPx :: jsnum

text \<open>The start of the hour, the start of the day and their ends, as the source builds them.\<close>

definition hourStartTime :: "date \<Rightarrow> jsnum" where
  "hourStartTime d =
     getTime (newDate (getFullYear d) (getMonth d) (getDate d) (getHours d) 0 0 0)"

definition hourEndTime :: "date \<Rightarrow> jsnum" where
  "hourEndTime d =
     getTime (newDate (getFullYear d) (getMonth d) (getDate d) (getHours d) 59 59 999)"

definition dayStartTime :: "date \<Rightarrow> jsnum" where
  "dayStartTime d =
     getTime (newDate (getFullYear d) (getMonth d) (getDate d) (Fin 0) 0 0 0)"

definition dayEndTime :: "date \<Rightarrow> jsnum" where
  "dayEndTime d =
     getTime (newDate (getFullYear d) (getMonth d) (getDate d) (Fin 23) 59 59 999)"

text \<open>The duration of the whole timeline as \<open>calculateTaskPixelPosition\<close> computes it.\<close>

definition totalTimelineRange :: "ViewMode \<Rightarrow> jsnum \<Rightarrow> jsnum \<Rightarrow> jsnum \<Rightarrow> jsnum" where
  "totalTimelineRange viewMode totalUnits timelineStartTime timelineEndTime =
     (if viewMode = WEEK then
        jmul (jmul (jmul (jmul (jmul totalUnits (Fin 7)) (Fin 24)) (Fin 60)) (Fin 60)) (Fin 1000)
      else if viewMode = DAY then
        jmul (jmul (jmul (jmul totalUnits (Fin 24)) (Fin 60)) (Fin 60)) (Fin 1000)
      else if viewMode = HOUR then
        jmul (jmul (jmul totalUnits (Fin 60)) (Fin 60)) (Fin 1000)
      else if viewMode = MINUTE then
        jmul (jmul totalUnits (Fin 60)) (Fin 1000)
      else jsub timelineEndTime timelineStartTime)"

definition minWidthByViewMode :: "ViewMode \<Rightarrow> jsnum" where
  "minWidthByViewMode viewMode =
     (case viewMode of MINUTE \<Rightarrow> Fin 10 | HOUR \<Rightarrow> Fin 15 | DAY \<Rightarrow> Fin 20 | WEEK \<Rightarrow> Fin 20
      | MONTH \<Rightarrow> Fin 20 | QUARTER \<Rightarrow> Fin 30 | YEAR \<Rightarrow> Fin 40)"

text \<open>The view-mode specific alignment of the raw pixel position.\<close>

definition alignPixels :: "ViewMode \<Rightarrow> jsnum \<Rightarrow> jsnum \<Rightarrow> jsnum \<Rightarrow> PixelInterval" where
  "alignPixels viewMode unitWidth leftPx0 widthPx0 =
     (if viewMode = MINUTE then
        \<lparr>leftPx = jround leftPx0, widthPx = jmax (Fin 10) (jround widthPx0)\<rparr>
      else if viewMode = HOUR then
        \<lparr>leftPx = jround leftPx0, widthPx = jmax (Fin 15) (jround widthPx0)\<rparr>
      else if viewMode = DAY then
        \<lparr>leftPx = jmul (jround (jdiv leftPx0 unitWidth)) unitWidth,
         widthPx = jmax unitWidth (jmul (jround (jdiv widthPx0 unitWidth)) unitWidth)\<rparr>
      else if viewMode = WEEK then
        (let pixelsPerDay = jdiv unitWidth (Fin 7)
         in \<lparr>leftPx = jmul (jround (jdiv leftPx0 pixelsPerDay)) pixelsPerDay,
             widthPx = jmax pixelsPerDay (jmul (jround (jdiv widthPx0 pixelsPerDay)) pixelsPerDay)\<rparr>)
      else \<lparr>leftPx = leftPx0, widthPx = widthPx0\<rparr>)"

text \<open>
  The times that \<open>calculateTaskPixelPosition\<close> normalises to the precision of the view
  mode: the two ends of the timeline (the window's ends as they are in the minute view,
  widened to their hour in the hour view and to their day in the day and week views),
  and the two ends of the task, clamped to the window and widened to their day in the
  day and week views.
\<close>

definition timelineStartTimeOf :: "ViewMode \<Rightarrow> date \<Rightarrow> jsnum" where
  "timelineStartTimeOf viewMode startDate =
     (if viewMode = MINUTE \<or> viewMode = HOUR \<or> viewMode = DAY \<or> viewMode = WEEK then
        (if viewMode = MINUTE then getTime startDate
         else if viewMode = HOUR then hourStartTime startDate
         else dayStartTime startDate)
      else getTime startDate)"

definition timelineEndTimeOf :: "ViewMode \<Rightarrow> date \<Rightarrow> jsnum" where
  "timelineEndTimeOf viewMode endDate =
     (if viewMode = MINUTE \<or> viewMode = HOUR \<or> viewMode = DAY \<or> viewMode = WEEK then
        (if viewMode = MINUTE then getTime endDate
         else if viewMode = HOUR then hourEndTime endDate
         else dayEndTime endDate)
      else getTime endDate)"

definition taskStartTimeOf :: "ViewMode \<Rightarrow> date \<Rightarrow> date \<Rightarrow> jsnum" where
  "taskStartTimeOf viewMode taskStart startDate =
     (let taskStartTime = jmax (getTime taskStart) (getTime startDate)
      in if viewMode = DAY \<or> viewMode = WEEK
         then dayStartTime (newDateOfNumber taskStartTime) else taskStartTime)"

definition taskEndTimeOf :: "ViewMode \<Rightarrow> date \<Rightarrow> date \<Rightarrow> jsnum" where
  "taskEndTimeOf viewMode taskEnd endDate =
     (let taskEndTime = jmin (getTime taskEnd) (getTime endDate)
      in if viewMode = DAY \<or> viewMode = WEEK
         then dayEndTime (newDateOfNumber taskEndTime) else taskEndTime)"

text \<open>
  The first part of \<open>calculateTaskPixelPosition\<close>, for a task with the dates
  \<open>taskStart\<close> and \<open>taskEnd\<close>: the normalised times, the share of the timeline before
  and under the task, and the aligned pixels.
\<close>

definition alignedPosition ::
  "date \<Rightarrow> date \<Rightarrow> date \<Rightarrow> date \<Rightarrow> jsnum \<Rightarrow> jsnum \<Rightarrow> ViewMode \<Rightarrow> PixelInterval" where
  "alignedPosition taskStart taskEnd startDate endDate totalUnits unitWidth viewMode =
     (let timelineStartTime = timelineStartTimeOf viewMode startDate;
          timelineEndTime = timelineEndTimeOf viewMode endDate;
          taskStartTime = taskStartTimeOf viewMode taskStart startDate;
          taskEndTime = taskEndTimeOf viewMode taskEnd endDate;
          range = totalTimelineRange viewMode totalUnits timelineStartTime timelineEndTime;
          distanceFromStart = jsub taskStartTime timelineStartTime;
          taskDuration = jsub taskEndTime taskStartTime;
          leftPercent = jdiv distanceFromStart range;
          widthPercent = jdiv taskDuration range;
          totalPixelWidth = jmul totalUnits unitWidth
      in alignPixels viewMode unitWidth
           (jmul leftPercent totalPixelWidth) (jmul widthPercent totalPixelWidth))"

text \<open>
  \<open>calculateTaskPixelPosition\<close>: the aligned position, then the minimum width of the
  view mode (every entry of the table is truthy, so its \<open>|| 20\<close> never applies), then
  the cap to the rest of the timeline.  The only \<open>throw\<close> is the one for a task field
  that is not a \<open>Date\<close>; the \<open>catch\<close> branch answers it with the default position.
\<close>

definition calculateTaskPixelPosition ::
  "Task \<Rightarrow> date \<Rightarrow> date \<Rightarrow> jsnum \<Rightarrow> jsnum \<Rightarrow> ViewMode \<Rightarrow> PixelInterval" where
  "calculateTaskPixelPosition task startDate endDate totalUnits unitWidth viewMode =
     (case (task_startDate task, task_endDate task) of
        (DateObject taskStart, DateObject taskEnd) \<Rightarrow>
          (let aligned = alignedPosition taskStart taskEnd startDate endDate
                           totalUnits unitWidth viewMode;
               totalPixelWidth = jmul totalUnits unitWidth;
               minWidth = minWidthByViewMode viewMode;
               width1 = jmax minWidth (widthPx aligned);
               maxWidth = jsub totalPixelWidth (leftPx aligned)
           in \<lparr>leftPx = leftPx aligned, widthPx = jmin maxWidth width1\<rparr>)
      | _ \<Rightarrow> \<lparr>leftPx = Fin 0, widthPx = Fin 20\<rparr>)"

text \<open>\<open>datesOverlap\<close>.\<close>

definition datesOverlap :: "date \<Rightarrow> date \<Rightarrow> date \<Rightarrow> date \<Rightarrow> bool" where
  "datesOverlap startA endA startB endB =
     (isWithinInterval startA startB endB \<or> isWithinInterval endA startB endB \<or>
      isWithinInterval startB startA endA \<or> isWithinInterval endB startA endA)"


section \<open>The header grouping engine (\<open>Timeline\<close>)\<close>

text \<open>
  \<open>getHigherLevelUnits\<close> groups the primitive units \<open>months\<close> of the timeline.  The
  two \<open>forEach\<close> loops of the minute and hour views carry the current group and its
  span; a group is pushed when a unit leaves it, and the last one after the loop.
  The current group starts as the hour (\<open>setMinutes(0, 0, 0)\<close>) or the day
  (\<open>setHours(0, 0, 0, 0)\<close>) of the first unit, with the span \<open>0\<close>.
\<close>

record HeaderUnit =
  headerDate :: date
  headerSpan :: jsnum

definition sameHour :: "date \<Rightarrow> date \<Rightarrow> bool" where
  "sameHour d currentHour =
     (jeq (getHours d) (getHours currentHour) \<and> jeq (getDate d) (getDate currentHour) \<and>
      jeq (getMonth d) (getMonth currentHour) \<and> jeq (getFullYear d) (getFullYear currentHour))"

definition sameDay :: "date \<Rightarrow> date \<Rightarrow> bool" where
  "sameDay d currentDay =
     (jeq (getDate d) (getDate currentDay) \<and> jeq (getMonth d) (getMonth currentDay) \<and>
      jeq (getFullYear d) (getFullYear currentDay))"

text \<open>
  The loop, with the test of its \<open>if\<close> (\<open>same\<close>) and the start of a new group
  (\<open>key\<close>) as parameters: the loop of the hour view is the loop of the minute view
  with the day in the place of the hour.
\<close>

fun groupRuns ::
  "(date \<Rightarrow> date \<Rightarrow> bool) \<Rightarrow> (date \<Rightarrow> date) \<Rightarrow> date \<Rightarrow> nat \<Rightarrow> date list \<Rightarrow> HeaderUnit list" where
  "groupRuns same key current currentSpan [] =
     (if currentSpan > 0
      then [\<lparr>headerDate = current, headerSpan = Fin (of_nat currentSpan)\<rparr>] else [])"
| "groupRuns same key current currentSpan (d # ds) =
     (if same d current then groupRuns same key current (currentSpan + 1) ds
      else \<lparr>headerDate = current, headerSpan = Fin (of_nat currentSpan)\<rparr>
             # groupRuns same key (key d) 1 ds)"

definition startOfHour :: "date \<Rightarrow> date" where
  "startOfHour d = setMinutes3 d 0 0 0"

definition groupByHour :: "date \<Rightarrow> nat \<Rightarrow> date list \<Rightarrow> HeaderUnit list" where
  "groupByHour = groupRuns sameHour startOfHour"

definition groupByDay :: "date \<Rightarrow> nat \<Rightarrow> date list \<Rightarrow> HeaderUnit list" where
  "groupByDay = groupRuns sameDay startOfDay"

definition currentMonthStart :: "date \<Rightarrow> date" where
  "currentMonthStart iterDate =
     newDate (getFullYear iterDate) (getMonth iterDate) (Fin 1) (Fin 0) 0 0 0"

definition nextMonthStart :: "date \<Rightarrow> date" where
  "nextMonthStart iterDate =
     newDate (getFullYear iterDate) (jadd (getMonth iterDate) (Fin 1)) (Fin 1) (Fin 0) 0 0 0"


section \<open>The marker positioner (\<open>TodayMarker\<close>)\<close>

definition durationInMs :: "ViewMode \<Rightarrow> jsnum" where
  "durationInMs viewMode =
     (case viewMode of
        MINUTE \<Rightarrow> Fin (60 * 1000)
      | HOUR \<Rightarrow> Fin (60 * 60 * 1000)
      | DAY \<Rightarrow> Fin (24 * 60 * 60 * 1000)
      | WEEK \<Rightarrow> Fin (7 * 24 * 60 * 60 * 1000)
      | _ \<Rightarrow> Fin 0)"

text \<open>
  \<open>calculateMarkerPosition\<close>.  The props \<open>dayOfMonth\<close>, \<open>startDate\<close> and \<open>currentDate\<close>
  are optional (\<open>None\<close> when not supplied); \<open>now\<close> is the value of \<open>new Date()\<close> at the
  call.
\<close>

definition calculateMarkerPosition ::
  "date \<Rightarrow> jsnum \<Rightarrow> jsnum option \<Rightarrow> ViewMode \<Rightarrow> jsnum \<Rightarrow> date option \<Rightarrow> date option \<Rightarrow> jsnum" where
  "calculateMarkerPosition now currentMonthIndex dayOfMonth viewMode unitWidth startDate currentDate =
     (let today = (case currentDate of Some d \<Rightarrow> d | None \<Rightarrow> now);
          currentDay =
            (case dayOfMonth of
               Some n \<Rightarrow> if jtruthy n then n else getDate today
             | None \<Rightarrow> getDate today);
          precise =
            (case startDate of
               Some sd \<Rightarrow>
                 if viewMode = WEEK \<or> viewMode = DAY \<or> viewMode = HOUR \<or> viewMode = MINUTE then
                   (let diffInMs = jsub (getTime today) (getTime sd)
                    in if jgt (durationInMs viewMode) (Fin 0)
                       then Some (jmul (jdiv diffInMs (durationInMs viewMode)) unitWidth)
                       else None)
                 else None
             | None \<Rightarrow> None)
      in case precise of
           Some position \<Rightarrow> position
         | None \<Rightarrow>
             (case viewMode of
                MINUTE \<Rightarrow>
                  (let minutePosition =
                         jdiv (jadd (getMinutes today) (jdiv (getSeconds today) (Fin 60))) (Fin 60)
                   in jadd (jmul currentMonthIndex unitWidth) (jmul unitWidth minutePosition))
              | HOUR \<Rightarrow>
                  (let hourPosition = jdiv (getMinutes today) (Fin 60)
                   in jadd (jmul currentMonthIndex unitWidth) (jmul unitWidth hourPosition))
              | DAY \<Rightarrow> jadd (jmul currentMonthIndex unitWidth) (jdiv unitWidth (Fin 2))
              | WEEK \<Rightarrow>
                  (let normalizedDayOfWeek = jrem (jadd (getDay today) (Fin 7)) (Fin 7);
                       dayPosition = jdiv normalizedDayOfWeek (Fin 6)
                   in jadd (jmul currentMonthIndex unitWidth) (jmul unitWidth dayPosition))
              | MONTH \<Rightarrow>
                  (let daysInMonth =
                         getDate (newDate (getFullYear today) (jadd (getMonth today) (Fin 1))
                                    (Fin 0) (Fin 0) 0 0 0);
                       dayPercentage = jdiv (jsub currentDay (Fin 1)) daysInMonth
                   in jadd (jmul currentMonthIndex unitWidth) (jmul unitWidth dayPercentage))
              | QUARTER \<Rightarrow>
                  (let monthPosition = jdiv (jrem (getMonth today) (Fin 3)) (Fin 3)
                   in jadd (jmul currentMonthIndex unitWidth) (jmul unitWidth monthPosition))
              | YEAR \<Rightarrow>
                  (let yearMonthPosition = jdiv (getMonth today) (Fin 12)
                   in jadd (jmul currentMonthIndex unitWidth) (jmul unitWidth yearMonthPosition))))"

text \<open>
  The component: nothing is rendered (\<open>None\<close>) for a negative index, otherwise the
  marker is placed at the computed position.
\<close>

definition TodayMarker ::
  "date \<Rightarrow> jsnum \<Rightarrow> jsnum option \<Rightarrow> ViewMode \<Rightarrow> jsnum \<Rightarrow> date option \<Rightarrow> date option \<Rightarrow> jsnum option" where
  "TodayMarker now currentMonthIndex dayOfMonth viewMode unitWidth startDate currentDate =
     (if jlt currentMonthIndex (Fin 0) then None
      else Some (calculateMarkerPosition now currentMonthIndex dayOfMonth viewMode unitWidth
                   startDate currentDate))"

section \<open>Facts about the calendar\<close>

text \<open>
  The year computed by \<open>YearFromDay\<close> is the year of the day, a month starts no later
  than each of its instants and the next month starts after them, and a date set to
  its own day of the month plus \<open>n\<close> moves by \<open>n\<close> days.
\<close>

lemma div_lower:
  fixes a n :: int
  assumes "0 < n"
  shows "n * (a div n) \<le> a"
proof -
  have "a = n * (a div n) + a mod n" by simp
  moreover have "0 \<le> a mod n" using assms by simp
  ultimately show ?thesis by linarith
qed

lemma div_upper:
  fixes a n :: int
  assumes "0 < n"
  shows "a < n * (a div n) + n"
proof -
  have "a = n * (a div n) + a mod n" by simp
  moreover have "a mod n < n" using assms by simp
  ultimately show ?thesis by linarith
qed

lemma DayFromYear_upper: "400 * DayFromYear y \<le> 146097 * y - 287810501"
proof -
  have a: "4 * ((y - 1969) div 4) \<le> y - 1969" by (rule div_lower) simp
  have b: "y - 1901 < 100 * ((y - 1901) div 100) + 100" by (rule div_upper) simp
  have c: "400 * ((y - 1601) div 400) \<le> y - 1601" by (rule div_lower) simp
  have "DayFromYear y = 365 * y - 719050 + (y - 1969) div 4 - (y - 1901) div 100 + (y - 1601) div 400"
    unfolding DayFromYear_def by simp
  then show ?thesis using a b c by linarith
qed

lemma DayFromYear_lower: "146097 * y - 287811596 \<le> 400 * DayFromYear y"
proof -
  have a: "y - 1969 < 4 * ((y - 1969) div 4) + 4" by (rule div_upper) simp
  have b: "100 * ((y - 1901) div 100) \<le> y - 1901" by (rule div_lower) simp
  have c: "y - 1601 < 400 * ((y - 1601) div 400) + 400" by (rule div_upper) simp
  have "DayFromYear y = 365 * y - 719050 + (y - 1969) div 4 - (y - 1901) div 100 + (y - 1601) div 400"
    unfolding DayFromYear_def by simp
  then show ?thesis using a b c by linarith
qed

lemma YearFromDay_bounds:
  "DayFromYear (YearFromDay d) \<le> d \<and> d < DayFromYear (YearFromDay d + 1)"
proof -
  define e where "e = (400 * d) div 146097"
  define y where "y = 1970 + e"
  have e1: "146097 * e \<le> 400 * d"
    unfolding e_def by (rule div_lower) simp
  have e2: "400 * d < 146097 * e + 146097"
    unfolding e_def by (rule div_upper) simp
  have u: "400 * DayFromYear (y - 1) \<le> 146097 * e - 145508"
    using DayFromYear_upper[of "y - 1"] by (simp add: y_def algebra_simps)
  have l: "146097 * e + 291688 \<le> 400 * DayFromYear (y + 1 + 1)"
    using DayFromYear_lower[of "y + 1 + 1"] by (simp add: y_def algebra_simps)
  have lo: "DayFromYear (y - 1) \<le> d"
    using u e1 by linarith
  have hi: "d < DayFromYear (y + 1 + 1)"
    using l e2 by linarith
  have "YearFromDay d = (if DayFromYear (y + 1) \<le> d then y + 1
         else if DayFromYear y \<le> d then y else y - 1)"
    unfolding YearFromDay_def Let_def y_def e_def by simp
  then show ?thesis using lo hi by auto
qed

lemma DayFromYear_mono: "y \<le> y' \<Longrightarrow> DayFromYear y \<le> DayFromYear y'"
proof -
  assume le: "y \<le> y'"
  have a: "(y - 1969) div 4 \<le> (y' - 1969) div 4" using le by (simp add: zdiv_mono1)
  have c: "(y - 1601) div 400 \<le> (y' - 1601) div 400" using le by (simp add: zdiv_mono1)
  have b1: "100 * ((y' - 1901) div 100) \<le> y' - 1901" by (rule div_lower) simp
  have b2: "y - 1901 < 100 * ((y - 1901) div 100) + 100" by (rule div_upper) simp
  have d: "\<And>z. DayFromYear z = 365 * z - 719050 + (z - 1969) div 4 - (z - 1901) div 100 + (z - 1601) div 400"
    unfolding DayFromYear_def by simp
  show ?thesis unfolding d using a b1 b2 c le by linarith
qed

lemma monthOfDay_range: "0 \<le> monthOfDay dwy l \<and> monthOfDay dwy l \<le> 11"
  by (simp add: monthOfDay_def Let_def)

lemma monthOffset_le: "0 \<le> dwy \<Longrightarrow> monthOffset (monthOfDay dwy l) l \<le> dwy"
  by (simp add: monthOfDay_def monthOffset_def Let_def)

lemma monthOfDay_cases:
  "(monthOfDay dwy l = 0 \<and> dwy < 31) \<or>
   (monthOfDay dwy l = 1 \<and> 31 \<le> dwy \<and> dwy < 59 + (if l then 1 else 0)) \<or>
   (monthOfDay dwy l = 2 \<and> 59 + (if l then 1 else 0) \<le> dwy \<and> dwy < 90 + (if l then 1 else 0)) \<or>
   (monthOfDay dwy l = 3 \<and> 90 + (if l then 1 else 0) \<le> dwy \<and> dwy < 120 + (if l then 1 else 0)) \<or>
   (monthOfDay dwy l = 4 \<and> 120 + (if l then 1 else 0) \<le> dwy \<and> dwy < 151 + (if l then 1 else 0)) \<or>
   (monthOfDay dwy l = 5 \<and> 151 + (if l then 1 else 0) \<le> dwy \<and> dwy < 181 + (if l then 1 else 0)) \<or>
   (monthOfDay dwy l = 6 \<and> 181 + (if l then 1 else 0) \<le> dwy \<and> dwy < 212 + (if l then 1 else 0)) \<or>
   (monthOfDay dwy l = 7 \<and> 212 + (if l then 1 else 0) \<le> dwy \<and> dwy < 243 + (if l then 1 else 0)) \<or>
   (monthOfDay dwy l = 8 \<and> 243 + (if l then 1 else 0) \<le> dwy \<and> dwy < 273 + (if l then 1 else 0)) \<or>
   (monthOfDay dwy l = 9 \<and> 273 + (if l then 1 else 0) \<le> dwy \<and> dwy < 304 + (if l then 1 else 0)) \<or>
   (monthOfDay dwy l = 10 \<and> 304 + (if l then 1 else 0) \<le> dwy \<and> dwy < 334 + (if l then 1 else 0)) \<or>
   (monthOfDay dwy l = 11 \<and> 334 + (if l then 1 else 0) \<le> dwy)"
  unfolding monthOfDay_def Let_def by (cases l) simp_all

lemma monthOffset_gt:
  "monthOfDay dwy l < 11 \<Longrightarrow> dwy < monthOffset (monthOfDay dwy l + 1) l"
  using monthOfDay_cases[of dwy l] by (elim disjE conjE) (simp_all add: monthOffset_def)

lemma DayWithinYear_nonneg: "0 \<le> DayWithinYear t"
  using YearFromDay_bounds[of "Day t"] by (simp add: DayWithinYear_def YearFromTime_def)

lemma MonthFromTime_range: "0 \<le> MonthFromTime t \<and> MonthFromTime t \<le> 11"
  by (simp add: MonthFromTime_def monthOfDay_range)

lemma MakeDay_month: "0 \<le> m \<Longrightarrow> m \<le> 11 \<Longrightarrow> MakeDay y m d = DayFromYear y + monthOffset m (InLeapYear y) + d - 1"
  by (simp add: MakeDay_def Let_def)

lemma MakeDay_roundtrip:
  "MakeDay (YearFromTime t) (MonthFromTime t) (DateFromTime t + n) = Day t + n"
  using MonthFromTime_range[of t]
  by (simp add: MakeDay_month DateFromTime_def DayWithinYear_def)

lemma monthStart_le: "MakeDay (YearFromTime t) (MonthFromTime t) 1 \<le> Day t"
  using MonthFromTime_range[of t] monthOffset_le[OF DayWithinYear_nonneg, of t "InLeapYear (YearFromTime t)"]
  by (simp add: MakeDay_month MonthFromTime_def DayWithinYear_def)

lemma nextMonthStart_gt: "Day t < MakeDay (YearFromTime t) (MonthFromTime t + 1) 1"
proof (cases "MonthFromTime t < 11")
  case True
  then have "DayWithinYear t < monthOffset (MonthFromTime t + 1) (InLeapYear (YearFromTime t))"
    unfolding MonthFromTime_def by (rule monthOffset_gt)
  moreover have "0 \<le> MonthFromTime t + 1" "MonthFromTime t + 1 \<le> 11"
    using True MonthFromTime_range[of t] by auto
  ultimately show ?thesis
    by (simp add: MakeDay_month DayWithinYear_def)
next
  case False
  then have m: "MonthFromTime t = 11" using MonthFromTime_range[of t] by auto
  have "MakeDay (YearFromTime t) 12 1 = DayFromYear (YearFromTime t + 1)"
    by (simp add: MakeDay_def Let_def monthOffset_def)
  then show ?thesis using YearFromDay_bounds[of "Day t"] m
    by (simp add: YearFromTime_def)
qed

lemma YearFromDay_mono: "d \<le> d' \<Longrightarrow> YearFromDay d \<le> YearFromDay d'"
proof (rule ccontr)
  assume le: "d \<le> d'" and "\<not> YearFromDay d \<le> YearFromDay d'"
  then have "YearFromDay d' + 1 \<le> YearFromDay d" by simp
  then have "DayFromYear (YearFromDay d' + 1) \<le> DayFromYear (YearFromDay d)"
    by (rule DayFromYear_mono)
  then show False using YearFromDay_bounds[of d] YearFromDay_bounds[of d'] le by linarith
qed

lemma Day_mono: "t \<le> t' \<Longrightarrow> Day t \<le> Day t'"
  by (simp add: Day_def msPerDay_def zdiv_mono1)

lemma YearFromTime_mono: "t \<le> t' \<Longrightarrow> YearFromTime t \<le> YearFromTime t'"
  by (simp add: YearFromTime_def YearFromDay_mono Day_mono)

lemma Day_bounds: "Day t * msPerDay \<le> t \<and> t < Day t * msPerDay + msPerDay"
  using div_lower[of msPerDay t] div_upper[of msPerDay t]
  by (simp add: Day_def msPerDay_def mult.commute)

lemma trunc_rat_of_int [simp]: "trunc_rat (of_int n) = n"
  by (simp add: trunc_rat_def)

lemma trunc_rat_simps [simp]:
  "trunc_rat 0 = 0"
  "trunc_rat 1 = 1"
  "trunc_rat (numeral k) = numeral k"
  "trunc_rat (of_int a + 1) = a + 1"
  "trunc_rat (of_int a - 1) = a - 1"
  "trunc_rat (of_int a + of_int b) = a + b"
  "trunc_rat (of_int a + of_int b - 1) = a + b - 1"
proof -
  show "trunc_rat 0 = 0" "trunc_rat 1 = 1" "trunc_rat (numeral k) = numeral k"
    by (simp_all add: trunc_rat_def)
  have "trunc_rat (of_int (a + 1)) = a + 1" by (rule trunc_rat_of_int)
  then show "trunc_rat (of_int a + 1) = a + 1" by simp
  have "trunc_rat (of_int (a - 1)) = a - 1" by (rule trunc_rat_of_int)
  then show "trunc_rat (of_int a - 1) = a - 1" by simp
  have "trunc_rat (of_int (a + b)) = a + b" by (rule trunc_rat_of_int)
  then show "trunc_rat (of_int a + of_int b) = a + b" by simp
  have "trunc_rat (of_int (a + b - 1)) = a + b - 1" by (rule trunc_rat_of_int)
  then show "trunc_rat (of_int a + of_int b - 1) = a + b - 1" by simp
qed

lemma toInteger_simps [simp]:
  "toInteger (Fin (of_int n)) = Some n"
  "toInteger (Fin 0) = Some 0"
  "toInteger (Fin 1) = Some 1"
  "toInteger (Fin (numeral k)) = Some (numeral k)"
  by (simp_all add: trunc_rat_def)

lemma field_At [simp]: "field f (At t) = Fin (of_int (f t))" "field f Invalid = NaN"
  by (simp_all add: field_def)

lemma jadd_of_int [simp]:
  "jadd (Fin (of_int a)) (Fin (of_int b)) = Fin (of_int (a + b))"
  "jadd (Fin (of_int a)) (Fin 1) = Fin (of_int (a + 1))"
  "jsub (Fin (of_int a)) (Fin (of_int b)) = Fin (of_int (a - b))"
  "jsub (Fin (of_int a)) (Fin 1) = Fin (of_int (a - 1))"
  by (simp_all add: jsub_def)

lemma newDate_Fin:
  "toInteger y = Some y' \<Longrightarrow> toInteger m = Some m' \<Longrightarrow> toInteger d = Some d' \<Longrightarrow>
   toInteger h = Some h' \<Longrightarrow>
   newDate y m d h mi s ms = TimeClip (MakeDate (MakeDay (MakeFullYear y') m' d') (MakeTime h' mi s ms))"
  by (simp add: newDate_def)

lemma TimeClip_At: "TimeClip t = At n \<Longrightarrow> n = t"
  by (simp add: TimeClip_def split: if_splits)

lemma nextMonthStart_At:
  "nextMonthStart (At t) =
     TimeClip (MakeDay (MakeFullYear (YearFromTime t)) (MonthFromTime t + 1) 1 * msPerDay)"
  unfolding nextMonthStart_def getFullYear_def getMonth_def
  by (simp add: newDate_Fin MakeDate_def MakeTime_def)

lemma currentMonthStart_At:
  "currentMonthStart (At t) =
     TimeClip (MakeDay (MakeFullYear (YearFromTime t)) (MonthFromTime t) 1 * msPerDay)"
  unfolding currentMonthStart_def getFullYear_def getMonth_def
  by (simp add: newDate_Fin MakeDate_def MakeTime_def)

lemma nextMonthStart_after:
  assumes "nextMonthStart (At t) = At n"
  shows "t < n"
proof -
  define Y where "Y = YearFromTime t"
  define M where "M = MonthFromTime t"
  have n: "n = MakeDay (MakeFullYear Y) (M + 1) 1 * msPerDay"
    using assms unfolding nextMonthStart_At Y_def M_def by (rule TimeClip_At)
  have "Day t < MakeDay (MakeFullYear Y) (M + 1) 1"
  proof (cases "0 \<le> Y \<and> Y \<le> 99")
    case False
    then have "MakeFullYear Y = Y" by (auto simp: MakeFullYear_def)
    then show ?thesis using nextMonthStart_gt[of t] by (simp add: Y_def M_def)
  next
    case True
    have mr: "0 \<le> M \<and> M \<le> 11" unfolding M_def by (rule MonthFromTime_range)
    have "Day t < DayFromYear (Y + 1)"
      using YearFromDay_bounds[of "Day t"] by (simp add: Y_def YearFromTime_def)
    also have "\<dots> \<le> DayFromYear (1900 + Y)" by (rule DayFromYear_mono) (use True in simp)
    also have "\<dots> \<le> MakeDay (1900 + Y) (M + 1) 1"
    proof (cases "M = 11")
      case True
      then have "MakeDay (1900 + Y) (M + 1) 1 = DayFromYear (1900 + Y + 1)"
        by (simp add: MakeDay_def Let_def monthOffset_def)
      then show ?thesis using DayFromYear_mono[of "1900 + Y" "1900 + Y + 1"] by simp
    next
      case False
      then have "MakeDay (1900 + Y) (M + 1) 1 = DayFromYear (1900 + Y) + monthOffset (M + 1) (InLeapYear (1900 + Y))"
        using mr by (simp add: MakeDay_month)
      moreover have "0 \<le> monthOffset (M + 1) (InLeapYear (1900 + Y))"
        by (simp add: monthOffset_def Let_def)
      ultimately show ?thesis by simp
    qed
    finally show ?thesis using True by (simp add: MakeFullYear_def)
  qed
  then have "(Day t + 1) * msPerDay \<le> n" unfolding n by (simp add: msPerDay_def)
  then show ?thesis using Day_bounds[of t] by (simp add: algebra_simps)
qed


text \<open>
  The \<open>while\<close> loop of the day and week views walks the months from \<open>iterDate\<close> to
  \<open>endDate\<close>; it ends because the next month starts after \<open>iterDate\<close>
  (lemma \<open>nextMonthStart_after\<close>).
\<close>

function monthBlocks :: "date \<Rightarrow> date \<Rightarrow> int \<Rightarrow> date \<Rightarrow> HeaderUnit list" where
  "monthBlocks startDate endDate unitDuration iterDate =
     (if date_lt iterDate endDate then
        (let blockStart =
               (if date_lt iterDate startDate then startDate
                else if date_gt iterDate (currentMonthStart iterDate) then iterDate
                else currentMonthStart iterDate);
             blockEnd =
               (if date_gt (nextMonthStart iterDate) endDate then endDate
                else nextMonthStart iterDate);
             durationMs = jsub (getTime blockEnd) (getTime blockStart);
             oneUnitMs = Fin (of_int (unitDuration * 24 * 60 * 60 * 1000))
         in (if date_lt blockStart blockEnd
             then [\<lparr>headerDate = blockStart, headerSpan = jdiv durationMs oneUnitMs\<rparr>] else [])
            @ monthBlocks startDate endDate unitDuration (nextMonthStart iterDate))
      else [])"
  by pat_completeness auto
termination
proof (relation "measure (\<lambda>(startDate, endDate, unitDuration, iterDate).
         case (iterDate, endDate) of (At i, At e) \<Rightarrow> nat (e - i) | _ \<Rightarrow> 0)")
  show "wf (measure (\<lambda>(startDate, endDate, unitDuration, iterDate).
         case (iterDate, endDate) of (At i, At e) \<Rightarrow> nat (e - i) | _ \<Rightarrow> 0))" by simp
next
  fix startDate endDate :: date and unitDuration :: int and iterDate :: date
  assume lt: "date_lt iterDate endDate"
  then obtain i e where ie: "iterDate = At i" "endDate = At e" "i < e"
    by (cases iterDate; cases endDate) (simp_all add: date_lt_def)
  show "((startDate, endDate, unitDuration, nextMonthStart iterDate),
         (startDate, endDate, unitDuration, iterDate))
        \<in> measure (\<lambda>(startDate, endDate, unitDuration, iterDate).
             case (iterDate, endDate) of (At i, At e) \<Rightarrow> nat (e - i) | _ \<Rightarrow> 0)"
  proof (cases "nextMonthStart iterDate")
    case Invalid
    then show ?thesis using ie by simp
  next
    case (At n)
    then have "i < n" using nextMonthStart_after ie by simp
    then show ?thesis using ie At by simp
  qed
qed

declare monthBlocks.simps [simp del]

definition getHigherLevelUnits :: "date list \<Rightarrow> ViewMode \<Rightarrow> HeaderUnit list" where
  "getHigherLevelUnits months viewMode =
     (case months of
        [] \<Rightarrow> []
      | first # rest \<Rightarrow>
          if viewMode = MINUTE then groupByHour (startOfHour first) 0 months
          else if viewMode = HOUR then groupByDay (startOfDay first) 0 months
          else if viewMode = DAY \<or> viewMode = WEEK then
            (if length months < 2 \<and> viewMode \<noteq> WEEK then []
             else
               (let startDate = first;
                    lastUnit = last months;
                    unitDuration = (if viewMode = WEEK then 7 else 1);
                    endDate = addDays lastUnit unitDuration
                in monthBlocks startDate endDate unitDuration startDate))
          else [])"



section \<open>Notions used in the properties\<close>

text \<open>A time value in the range of \<open>Date\<close>.\<close>

definition validTime :: "int \<Rightarrow> bool" where
  "validTime t = (\<bar>t\<bar> \<le> 8640000000000000)"

text \<open>
  A time value from the year 100 on (so that the two-digit year rule of \<open>new Date\<close>
  does not apply) and at least 40 days before the end of the range of \<open>Date\<close> (so
  that the start of the next month is a date).
\<close>

definition plainTime :: "int \<Rightarrow> bool" where
  "plainTime t = (100 \<le> YearFromTime t \<and> t + 40 * msPerDay \<le> 8640000000000000)"

text \<open>The sum of the spans of a header row.\<close>

fun spanSum :: "HeaderUnit list \<Rightarrow> jsnum" where
  "spanSum [] = Fin 0"
| "spanSum (h # hs) = jadd (headerSpan h) (spanSum hs)"

text \<open>
  A header row whose spans are positive and whose dates increase strictly, none of
  them before \<open>lo\<close>.
\<close>

definition risingFrom :: "date \<Rightarrow> HeaderUnit list \<Rightarrow> bool" where
  "risingFrom lo hs =
     ((\<forall>h \<in> set hs. jlt (Fin 0) (headerSpan h) \<and> date_le lo (headerDate h)) \<and>
      sorted_wrt (\<lambda>h k. date_lt (headerDate h) (headerDate k)) hs)"

text \<open>
  The header row that tiles the boundaries \<open>b\<^sub>0, b\<^sub>1, \<dots>, b\<^sub>k\<close>: one unit from each
  boundary to the next, its span the quotient \<open>durationMs / oneUnitMs\<close> of their
  distance by the duration of \<open>u\<close> days.
\<close>

fun blocksOf :: "int \<Rightarrow> int list \<Rightarrow> HeaderUnit list" where
  "blocksOf u (b # c # bs) =
     \<lparr>headerDate = At b,
      headerSpan = jdiv (jsub (Fin (of_int c)) (Fin (of_int b)))
                        (Fin (of_int (u * 24 * 60 * 60 * 1000)))\<rparr>
       # blocksOf u (c # bs)"
| "blocksOf u bs = []"


text \<open>
  The days of a unit of the day and week views, and the elapsed-day count of the full
  range in the words of the specification: from the first unit to one unit-duration
  past the last unit (\<open>addDays\<close> of the last unit), in days of 86400000 ms.
\<close>

definition unitDays :: "ViewMode \<Rightarrow> int" where
  "unitDays viewMode = (if viewMode = WEEK then 7 else 1)"




text \<open>
  The dates of \<open>calculateDatesFromPosition\<close> before its last step, the clamps: the raw
  dates of the position, snapped to the grid of the view mode.
\<close>

definition snappedDates ::
  "jsnum \<Rightarrow> jsnum \<Rightarrow> date \<Rightarrow> date \<Rightarrow> jsnum \<Rightarrow> jsnum \<Rightarrow> ViewMode \<Rightarrow> DateInterval" where
  "snappedDates left width startDate endDate totalUnits unitWidth viewMode =
     (let safeLeft = (if jisNaN left then Fin 0 else left);
          safeWidth = (if jisNaN width \<or> jlt width (Fin 20) then Fin 20 else width);
          timelineStartTime = getTime startDate;
          timelineEndTime = getTime endDate;
          duration = timelineDuration viewMode totalUnits timelineStartTime timelineEndTime;
          msPerPixel = jdiv duration (jmul totalUnits unitWidth);
          startOffset = jmul safeLeft msPerPixel;
          durationMs = jmul safeWidth msPerPixel;
          rawStart = newDateOfNumber (jadd timelineStartTime startOffset);
          rawEnd = newDateOfNumber (jadd (jadd timelineStartTime startOffset) durationMs)
      in snapDates viewMode left width startDate unitWidth rawStart rawEnd)"

text \<open>
  The round trip of a date interval: \<open>calculateTaskPixelPosition\<close>, then
  \<open>calculateDatesFromPosition\<close> on the position it returns, in the same window.
\<close>

definition roundTrip ::
  "date \<Rightarrow> date \<Rightarrow> date \<Rightarrow> date \<Rightarrow> jsnum \<Rightarrow> jsnum \<Rightarrow> ViewMode \<Rightarrow> DateInterval" where
  "roundTrip dStart dEnd startDate endDate totalUnits unitWidth viewMode =
     (let px = calculateTaskPixelPosition
                 \<lparr>task_startDate = DateObject dStart, task_endDate = DateObject dEnd\<rparr>
                 startDate endDate totalUnits unitWidth viewMode
      in calculateDatesFromPosition (leftPx px) (widthPx px)
           startDate endDate totalUnits unitWidth viewMode)"

text \<open>
  A window and a date interval inside it, all from the year 100 on and 40 days before
  the end of the range of \<open>Date\<close>.
\<close>

definition dayWindow :: "int \<Rightarrow> int \<Rightarrow> int \<Rightarrow> int \<Rightarrow> bool" where
  "dayWindow s e ts te = (plainTime s \<and> plainTime e \<and> s \<le> ts \<and> ts \<le> te \<and> te \<le> e)"

text \<open>The blocks of one step of the \<open>while\<close> loop of the day and week views.\<close>

definition blockStartOf :: "date \<Rightarrow> date \<Rightarrow> date" where
  "blockStartOf startDate iterDate =
     (if date_lt iterDate startDate then startDate
      else if date_gt iterDate (currentMonthStart iterDate) then iterDate
      else currentMonthStart iterDate)"

definition blockEndOf :: "date \<Rightarrow> date \<Rightarrow> date" where
  "blockEndOf endDate iterDate =
     (if date_gt (nextMonthStart iterDate) endDate then endDate else nextMonthStart iterDate)"

section \<open>The effective duration of the timeline\<close>





text \<open>
  In the minute, hour, day and week views \<open>calculateDatesFromPosition\<close> computes the
  rate and the raw dates, but the snapping of these views starts again from
  \<open>startDate\<close>, \<open>left\<close>, \<open>width\<close> and \<open>unitWidth\<close> and does not read the raw dates.
\<close>

lemma snapDates_fixed_views:
  "viewMode = MINUTE \<or> viewMode = HOUR \<or> viewMode = DAY \<or> viewMode = WEEK \<Longrightarrow>
   snapDates viewMode left width startDate unitWidth rawStart rawEnd
   = snapDates viewMode left width startDate unitWidth rawStart' rawEnd'"
  by (auto simp: snapDates_def)

text \<open>
  In the month, quarter and year views the rate reaches the result: in the month
  view, with a year of twelve units of 150 pixels, the position \<open>left = 900\<close>,
  \<open>width = 150\<close> is half the literal span of the window (2024-01-01 to 2024-12-31)
  from its start, 2024-07-01, to a twelfth of that span later, which ends on
  2024-07-31.
\<close>

lemma month_view_uses_window_span:
  "calculateDatesFromPosition (Fin 900) (Fin 150)
     (newDate (Fin 2024) (Fin 0) (Fin 1) (Fin 0) 0 0 0)
     (newDate (Fin 2024) (Fin 11) (Fin 31) (Fin 0) 0 0 0)
     (Fin 12) (Fin 150) MONTH
   = \<lparr>newStartDate = newDate (Fin 2024) (Fin 6) (Fin 1) (Fin 0) 0 0 0,
      newEndDate = newDate (Fin 2024) (Fin 6) (Fin 31) (Fin 23) 59 59 999\<rparr>"
  by code_simp

section \<open>A drag in the day view\<close>

text \<open>
  Claim C7.  In the day view with \<open>unitWidth = 150\<close>, \<open>totalUnits = 30\<close> and the window
  from 2024-01-01T00:00:00.000 to 2024-01-31, the position \<open>left = 300\<close>,
  \<open>width = 450\<close> gives the dates 2024-01-03T00:00:00.000 and 2024-01-05T23:59:59.999.
\<close>

theorem day_drag_scenario:
  "calculateDatesFromPosition (Fin 300) (Fin 450)
     (newDate (Fin 2024) (Fin 0) (Fin 1) (Fin 0) 0 0 0)
     (newDate (Fin 2024) (Fin 0) (Fin 31) (Fin 0) 0 0 0)
     (Fin 30) (Fin 150) DAY
   = \<lparr>newStartDate = newDate (Fin 2024) (Fin 0) (Fin 3) (Fin 0) 0 0 0,
      newEndDate = newDate (Fin 2024) (Fin 0) (Fin 5) (Fin 23) 59 59 999\<rparr>"
  by code_simp

section \<open>Overlap of two date ranges\<close>

lemma isWithinInterval_At:
  "isWithinInterval (At t) (At a) (At b) = (min a b \<le> t \<and> t \<le> max a b)"
  by (auto simp: isWithinInterval_def jle_def Let_def)

text \<open>
  Claim C8.  For two date ranges whose ends are not before their starts, \<open>datesOverlap\<close>
  gives the same answer with the ranges exchanged, and a range overlaps itself.
\<close>

theorem datesOverlap_sym_refl:
  assumes "date_le startA endA" and "date_le startB endB"
  shows "datesOverlap startA endA startB endB = datesOverlap startB endB startA endA \<and>
         datesOverlap startA endA startA endA"
proof
  show "datesOverlap startA endA startB endB = datesOverlap startB endB startA endA"
    unfolding datesOverlap_def by blast
  obtain a b where ab: "startA = At a" "endA = At b" "a \<le> b"
    using assms(1) by (cases startA; cases endA) (simp_all add: date_le_def jle_def)
  then show "datesOverlap startA endA startA endA"
    by (simp add: datesOverlap_def isWithinInterval_At)
qed

theorem datesOverlap_sym_refl_witness:
  "date_le (At 0) (At 10) \<and> date_le (At 5) (At 20) \<and>
   datesOverlap (At 0) (At 10) (At 5) (At 20) \<and> datesOverlap (At 5) (At 20) (At 0) (At 10) \<and>
   datesOverlap (At 0) (At 10) (At 0) (At 10)"
proof -
  have a: "date_le (At 0) (At 10)" and b: "date_le (At 5) (At 20)"
    by (simp_all add: date_le_def jle_def)
  have "datesOverlap (At 0) (At 10) (At 5) (At 20)"
    by (simp add: datesOverlap_def isWithinInterval_At)
  then show ?thesis using datesOverlap_sym_refl[OF a b] a b by simp
qed

section \<open>The position of the marker\<close>

text \<open>
  Claim C9.  When \<open>startDate\<close> is supplied and the view is the minute, hour, day or week
  view, a negative index suppresses the marker and any other index places it at
  \<open>(instant - startDate) / unitDurationMs * unitWidth\<close>, whatever the index.
\<close>

theorem marker_grid_exact:
  assumes "viewMode = MINUTE \<or> viewMode = HOUR \<or> viewMode = DAY \<or> viewMode = WEEK"
  shows "(\<not> jlt currentMonthIndex (Fin 0) \<longrightarrow>
            TodayMarker now currentMonthIndex dayOfMonth viewMode unitWidth (Some sd) currentDate =
              Some (jmul (jdiv (jsub (getTime (case currentDate of Some d \<Rightarrow> d | None \<Rightarrow> now))
                                     (getTime sd))
                               (case viewMode of MINUTE \<Rightarrow> Fin 60000 | HOUR \<Rightarrow> Fin 3600000
                                | DAY \<Rightarrow> Fin 86400000 | _ \<Rightarrow> Fin 604800000))
                         unitWidth)) \<and>
         (jlt currentMonthIndex (Fin 0) \<longrightarrow>
            TodayMarker now currentMonthIndex dayOfMonth viewMode unitWidth (Some sd) currentDate = None)"
  using assms
  by (auto simp: TodayMarker_def calculateMarkerPosition_def durationInMs_def jgt_def Let_def)

theorem marker_grid_exact_witness:
  "TodayMarker (At 1704110400000) (Fin 3) None DAY (Fin 150) (Some (At 1704067200000)) None
     = Some (Fin 75) \<and>
   TodayMarker (At 1704110400000) (Fin 9) None DAY (Fin 150) (Some (At 1704067200000)) None
     = Some (Fin 75) \<and>
   TodayMarker (At 1704110400000) (Fin (- 1)) None DAY (Fin 150) (Some (At 1704067200000)) None
     = None"
  using marker_grid_exact[of DAY "Fin 3" "At 1704110400000" None "Fin 150" "At 1704067200000" None]
        marker_grid_exact[of DAY "Fin 9" "At 1704110400000" None "Fin 150" "At 1704067200000" None]
        marker_grid_exact[of DAY "Fin (- 1)" "At 1704110400000" None "Fin 150" "At 1704067200000" None]
  by (simp add: jsub_def)

section \<open>Malformed pixel input\<close>

text \<open>
  \<open>safeLeft\<close> and \<open>safeWidth\<close> reach the dates of the month, quarter and year views
  only: there a \<open>NaN\<close> for \<open>left\<close> acts as \<open>0\<close>, and a \<open>NaN\<close> or a width below 20 as 20.
\<close>

lemma snapDates_calendar:
  "viewMode = MONTH \<or> viewMode = QUARTER \<or> viewMode = YEAR \<Longrightarrow>
   snapDates viewMode left width startDate unitWidth rawStart rawEnd =
     \<lparr>newStartDate = startOfDay rawStart, newEndDate = endOfDay rawEnd\<rparr>"
  by (auto simp: snapDates_def)

lemma nan_absorbed_calendar_modes:
  assumes "viewMode = MONTH \<or> viewMode = QUARTER \<or> viewMode = YEAR"
  shows "calculateDatesFromPosition NaN width startDate endDate totalUnits unitWidth viewMode =
         calculateDatesFromPosition (Fin 0) width startDate endDate totalUnits unitWidth viewMode"
    and "jisNaN width \<or> jlt width (Fin 20) \<Longrightarrow>
         calculateDatesFromPosition left width startDate endDate totalUnits unitWidth viewMode =
         calculateDatesFromPosition left (Fin 20) startDate endDate totalUnits unitWidth viewMode"
  unfolding calculateDatesFromPosition_def snapDates_calendar[OF assms]
  by simp_all

text \<open>
  Claim C5 says that a \<open>NaN\<close> for \<open>left\<close> acts as \<open>0\<close> in every view and never yields
  an invalid date.  The minute, hour, day and week branches read the raw \<open>left\<close> and
  \<open>width\<close>: in the day view of claim C7 a \<open>NaN\<close> for \<open>left\<close> gives two invalid dates,
  where \<open>0\<close> gives 2024-01-01T00:00:00.000 and 2024-01-03T23:59:59.999.
\<close>

theorem nan_left_reaches_caller:
  "calculateDatesFromPosition NaN (Fin 450)
     (newDate (Fin 2024) (Fin 0) (Fin 1) (Fin 0) 0 0 0)
     (newDate (Fin 2024) (Fin 0) (Fin 31) (Fin 0) 0 0 0)
     (Fin 30) (Fin 150) DAY
   = \<lparr>newStartDate = Invalid, newEndDate = Invalid\<rparr> \<and>
   calculateDatesFromPosition (Fin 0) (Fin 450)
     (newDate (Fin 2024) (Fin 0) (Fin 1) (Fin 0) 0 0 0)
     (newDate (Fin 2024) (Fin 0) (Fin 31) (Fin 0) 0 0 0)
     (Fin 30) (Fin 150) DAY
   = \<lparr>newStartDate = newDate (Fin 2024) (Fin 0) (Fin 1) (Fin 0) 0 0 0,
      newEndDate = newDate (Fin 2024) (Fin 0) (Fin 3) (Fin 23) 59 59 999\<rparr>"
  by code_simp

text \<open>
  Likewise a width of 5 is not raised to 20 there: with \<open>unitWidth = 10\<close> it spans one
  day, a width of 20 two.
\<close>

lemma small_width_not_floored:
  "calculateDatesFromPosition (Fin 0) (Fin 5)
     (newDate (Fin 2024) (Fin 0) (Fin 1) (Fin 0) 0 0 0)
     (newDate (Fin 2024) (Fin 0) (Fin 31) (Fin 0) 0 0 0)
     (Fin 30) (Fin 10) DAY
   = \<lparr>newStartDate = newDate (Fin 2024) (Fin 0) (Fin 1) (Fin 0) 0 0 0,
      newEndDate = newDate (Fin 2024) (Fin 0) (Fin 1) (Fin 23) 59 59 999\<rparr> \<and>
   calculateDatesFromPosition (Fin 0) (Fin 20)
     (newDate (Fin 2024) (Fin 0) (Fin 1) (Fin 0) 0 0 0)
     (newDate (Fin 2024) (Fin 0) (Fin 31) (Fin 0) 0 0 0)
     (Fin 30) (Fin 10) DAY
   = \<lparr>newStartDate = newDate (Fin 2024) (Fin 0) (Fin 1) (Fin 0) 0 0 0,
      newEndDate = newDate (Fin 2024) (Fin 0) (Fin 2) (Fin 23) 59 59 999\<rparr>"
  by code_simp

section \<open>Clamping to the window\<close>

text \<open>
  Claim C2.  The last step of \<open>calculateDatesFromPosition\<close> is meant to keep the
  returned dates inside the window (\<open>// Ensure dates don't extend beyond the timeline
  boundaries\<close>), and the specification states \<open>startDate \<le> newStartDate \<le> newEndDate \<le>
  endDate\<close> for every pixel input.  The step compares the start with \<open>startDate\<close> only
  and the end with \<open>endDate\<close> only.  In the day view of claim C7 (window 2024-01-01 to
  2024-01-31, \<open>unitWidth = 150\<close>), a bar dragged to \<open>left = 6000\<close> comes back starting on
  2024-02-10, after the end of the window and after its own end 2024-01-31; a bar
  dragged to \<open>left = - 6000\<close> comes back ending on 2023-11-24, before the start of the
  window and before its own start 2024-01-01.
\<close>

theorem clamp_leaves_window:
  "calculateDatesFromPosition (Fin 6000) (Fin 450)
     (newDate (Fin 2024) (Fin 0) (Fin 1) (Fin 0) 0 0 0)
     (newDate (Fin 2024) (Fin 0) (Fin 31) (Fin 0) 0 0 0)
     (Fin 30) (Fin 150) DAY
   = \<lparr>newStartDate = newDate (Fin 2024) (Fin 1) (Fin 10) (Fin 0) 0 0 0,
      newEndDate = newDate (Fin 2024) (Fin 0) (Fin 31) (Fin 0) 0 0 0\<rparr> \<and>
   date_gt (newDate (Fin 2024) (Fin 1) (Fin 10) (Fin 0) 0 0 0)
           (newDate (Fin 2024) (Fin 0) (Fin 31) (Fin 0) 0 0 0) \<and>
   calculateDatesFromPosition (Fin (- 6000)) (Fin 450)
     (newDate (Fin 2024) (Fin 0) (Fin 1) (Fin 0) 0 0 0)
     (newDate (Fin 2024) (Fin 0) (Fin 31) (Fin 0) 0 0 0)
     (Fin 30) (Fin 150) DAY
   = \<lparr>newStartDate = newDate (Fin 2024) (Fin 0) (Fin 1) (Fin 0) 0 0 0,
      newEndDate = newDate (Fin 2023) (Fin 10) (Fin 24) (Fin 23) 59 59 999\<rparr> \<and>
   date_lt (newDate (Fin 2023) (Fin 10) (Fin 24) (Fin 23) 59 59 999)
           (newDate (Fin 2024) (Fin 0) (Fin 1) (Fin 0) 0 0 0)"
  by code_simp

lemma not_jlt_refl: "\<not> jlt a a"
  by (cases a) simp_all

text \<open>
  What the last step does guarantee, for every pixel input and every view mode: the
  returned start is not before \<open>startDate\<close> and the returned end is not after
  \<open>endDate\<close>.
\<close>

lemma clamp_one_sided:
  fixes left width totalUnits unitWidth :: jsnum and startDate endDate :: date
    and viewMode :: ViewMode
  defines "r \<equiv> calculateDatesFromPosition left width startDate endDate totalUnits unitWidth viewMode"
  shows "\<not> date_lt (newStartDate r) startDate \<and> \<not> date_gt (newEndDate r) endDate \<and>
         (\<forall>s s'. startDate = At s \<and> newStartDate r = At s' \<longrightarrow> s \<le> s') \<and>
         (\<forall>e e'. endDate = At e \<and> newEndDate r = At e' \<longrightarrow> e' \<le> e)"
proof -
  have a: "\<not> date_lt (newStartDate r) startDate"
    unfolding r_def calculateDatesFromPosition_def Let_def
    by (simp add: date_lt_def not_jlt_refl)
  have b: "\<not> date_gt (newEndDate r) endDate"
    unfolding r_def calculateDatesFromPosition_def Let_def
    by (simp add: date_gt_def jgt_def not_jlt_refl)
  show ?thesis using a b by (auto simp: date_lt_def date_gt_def jgt_def)
qed

text \<open>
  When the snapped bar is ordered and meets the window, the whole chain
  \<open>startDate \<le> newStartDate \<le> newEndDate \<le> endDate\<close> holds.
\<close>

lemma clamp_ordered_when_bar_meets_window:
  fixes left width totalUnits unitWidth :: jsnum and startDate endDate :: date
    and viewMode :: ViewMode
  defines "snapped \<equiv> snappedDates left width startDate endDate totalUnits unitWidth viewMode"
  defines "r \<equiv> calculateDatesFromPosition left width startDate endDate totalUnits unitWidth viewMode"
  assumes "date_le startDate endDate"
    and "date_le (newStartDate snapped) (newEndDate snapped)"
    and "date_le (newStartDate snapped) endDate"
    and "date_le startDate (newEndDate snapped)"
  shows "date_le startDate (newStartDate r) \<and> date_le (newStartDate r) (newEndDate r) \<and>
         date_le (newEndDate r) endDate"
proof -
  have r: "r = \<lparr>newStartDate =
                  (if date_lt (newStartDate snapped) startDate then startDate
                   else newStartDate snapped),
                newEndDate =
                  (if date_gt (newEndDate snapped) endDate then endDate
                   else newEndDate snapped)\<rparr>"
    unfolding r_def snapped_def calculateDatesFromPosition_def snappedDates_def Let_def
    by (rule refl)
  have inv: "\<not> date_le Invalid d" "\<not> date_le d Invalid" for d
    by (cases d; simp add: date_le_def jle_def)+
  obtain a b s e where v: "startDate = At a" "endDate = At b"
      "newStartDate snapped = At s" "newEndDate snapped = At e"
    using assms(3,4) inv
    by (cases startDate; cases endDate; cases "newStartDate snapped"; cases "newEndDate snapped")
       auto
  show ?thesis
    using assms(3-6) unfolding r v
    by (auto simp: date_le_def jle_def date_lt_def date_gt_def jgt_def)
qed

text \<open>
  A bar over the right edge of the window: \<open>left = 4350\<close>, three days from 2024-01-30,
  comes back ending with the window.
\<close>

lemma clamp_at_right_edge:
  "calculateDatesFromPosition (Fin 4350) (Fin 450)
     (newDate (Fin 2024) (Fin 0) (Fin 1) (Fin 0) 0 0 0)
     (newDate (Fin 2024) (Fin 0) (Fin 31) (Fin 0) 0 0 0)
     (Fin 30) (Fin 150) DAY
   = \<lparr>newStartDate = newDate (Fin 2024) (Fin 0) (Fin 30) (Fin 0) 0 0 0,
      newEndDate = newDate (Fin 2024) (Fin 0) (Fin 31) (Fin 0) 0 0 0\<rparr>"
  by code_simp

section \<open>The minimum width of a bar\<close>

text \<open>
  Claim C3 as stated: the width returned by \<open>calculateTaskPixelPosition\<close> is at least
  the minimum width of the view mode.  It fails for a task at the right edge of the
  window: in the day view of claim C7 a task on 2024-01-31 gets the width \<open>0\<close>.
\<close>

theorem min_width_counterexample:
  "\<not> jle (minWidthByViewMode DAY)
      (widthPx (calculateTaskPixelPosition
         \<lparr>task_startDate = DateObject (newDate (Fin 2024) (Fin 0) (Fin 31) (Fin 0) 0 0 0),
          task_endDate = DateObject (newDate (Fin 2024) (Fin 0) (Fin 31) (Fin 0) 0 0 0)\<rparr>
         (newDate (Fin 2024) (Fin 0) (Fin 1) (Fin 0) 0 0 0)
         (newDate (Fin 2024) (Fin 0) (Fin 31) (Fin 0) 0 0 0)
         (Fin 30) (Fin 150) DAY))"
  by code_simp

lemma jmax_ge_jle:
  "\<not> jisNaN (jmax (Fin m) x) \<Longrightarrow> jle (Fin m) (jmax (Fin m) x)"
  by (cases x) (auto simp: jmax_def jle_def split: if_splits)

lemma jmin_Fin:
  "jmin a b = Fin w \<Longrightarrow> jle (Fin m) b \<Longrightarrow> a = Fin c \<Longrightarrow> (m \<le> c \<longrightarrow> m \<le> w) \<and> w \<le> c"
  by (cases b) (auto simp: jmin_def jle_def split: if_splits)

lemma jmin_not_NaN: "jmin a b = Fin w \<Longrightarrow> \<not> jisNaN a \<and> \<not> jisNaN b"
  by (auto simp: jmin_def split: if_splits)

text \<open>
  Claim C3 as amended.  For a task with two dates, whenever the returned position is
  finite, the width is at most the rest of the timeline to the right of \<open>leftPx\<close>, and
  it is at least the minimum width of the view mode (10, 15, 20, 20, 20, 30, 40)
  whenever that rest is: the cap is the last step and wins over the minimum.
\<close>

theorem min_width_unless_capped:
  assumes "task_startDate task = DateObject a" and "task_endDate task = DateObject b"
    and "calculateTaskPixelPosition task startDate endDate totalUnits unitWidth viewMode
           = \<lparr>leftPx = Fin L, widthPx = Fin W\<rparr>"
    and "jmul totalUnits unitWidth = Fin T"
  shows "W \<le> T - L \<and>
         (case viewMode of MINUTE \<Rightarrow> L + 10 \<le> T \<longrightarrow> 10 \<le> W
          | HOUR \<Rightarrow> L + 15 \<le> T \<longrightarrow> 15 \<le> W
          | QUARTER \<Rightarrow> L + 30 \<le> T \<longrightarrow> 30 \<le> W
          | YEAR \<Rightarrow> L + 40 \<le> T \<longrightarrow> 40 \<le> W
          | _ \<Rightarrow> L + 20 \<le> T \<longrightarrow> 20 \<le> W)"
proof -
  define aligned where
    "aligned = alignedPosition a b startDate endDate totalUnits unitWidth viewMode"
  have r: "calculateTaskPixelPosition task startDate endDate totalUnits unitWidth viewMode =
          \<lparr>leftPx = leftPx aligned,
           widthPx = jmin (jsub (jmul totalUnits unitWidth) (leftPx aligned))
                          (jmax (minWidthByViewMode viewMode) (widthPx aligned))\<rparr>"
    unfolding calculateTaskPixelPosition_def Let_def aligned_def using assms(1,2) by simp
  have bound: "W \<le> T - L \<and> (L + m \<le> T \<longrightarrow> m \<le> W)"
    if m: "minWidthByViewMode viewMode = Fin m" for m
  proof -
    have w: "jmin (jsub (Fin T) (Fin L)) (jmax (Fin m) (widthPx aligned)) = Fin W"
      using r assms(3,4) m by simp
    have "\<not> jisNaN (jmax (Fin m) (widthPx aligned))" using jmin_not_NaN[OF w] by simp
    then have "jle (Fin m) (jmax (Fin m) (widthPx aligned))" by (rule jmax_ge_jle)
    from jmin_Fin[OF w this, of "T - L"] show ?thesis by (auto simp: jsub_def)
  qed
  show ?thesis
    by (cases viewMode) (use bound in \<open>simp_all add: minWidthByViewMode_def\<close>)
qed

theorem min_width_unless_capped_witness:
  "calculateTaskPixelPosition
     \<lparr>task_startDate = DateObject (At 1704258000000),
      task_endDate = DateObject (At 1704438000000)\<rparr>
     (At 1704067200000) (At 1706659200000) (Fin 30) (Fin 150) DAY
   = \<lparr>leftPx = Fin 300, widthPx = Fin 450\<rparr> \<and>
   (450::rat) \<le> 4500 - 300 \<and> (20::rat) \<le> 450"
proof -
  have r: "calculateTaskPixelPosition
     \<lparr>task_startDate = DateObject (At 1704258000000),
      task_endDate = DateObject (At 1704438000000)\<rparr>
     (At 1704067200000) (At 1706659200000) (Fin 30) (Fin 150) DAY
   = \<lparr>leftPx = Fin 300, widthPx = Fin 450\<rparr>"
    by code_simp
  have t: "jmul (Fin 30) (Fin 150) = Fin 4500" by simp
  show ?thesis
    using min_width_unless_capped[OF _ _ r t, of "At 1704258000000" "At 1704438000000"] r
    by simp
qed


section \<open>The header row\<close>


lemma date_le_At [simp]: "date_le (At a) (At b) = (a \<le> b)"
  by (auto simp: date_le_def jle_def)

lemma date_lt_At [simp]: "date_lt (At a) (At b) = (a < b)"
  by (simp add: date_lt_def)

lemma date_gt_At [simp]: "date_gt (At a) (At b) = (b < a)"
  by (simp add: date_gt_def jgt_def)

lemma date_cmp_Invalid [simp]:
  "\<not> date_le Invalid d" "\<not> date_le d Invalid" "\<not> date_lt Invalid d" "\<not> date_lt d Invalid"
  "\<not> date_gt Invalid d" "\<not> date_gt d Invalid"
  by (cases d; simp add: date_le_def jle_def date_lt_def date_gt_def jgt_def)+

lemma risingFrom_Nil [simp]: "risingFrom lo []"
  by (simp add: risingFrom_def)

lemma risingFrom_weaken:
  "risingFrom (At b) hs \<Longrightarrow> a \<le> b \<Longrightarrow> risingFrom (At a) hs"
proof -
  assume r: "risingFrom (At b) hs" and le: "a \<le> b"
  have "date_le (At a) d" if "date_le (At b) d" for d
    using that le by (cases d) simp_all
  then show ?thesis using r by (auto simp: risingFrom_def)
qed

lemma risingFrom_Cons:
  assumes "risingFrom (At b) hs" and "a < b" and "0 < x"
  shows "risingFrom (At a) (\<lparr>headerDate = At a, headerSpan = Fin x\<rparr> # hs)"
proof -
  have "date_lt (At a) d \<and> date_le (At a) d" if "date_le (At b) d" for d
    using that assms(2) by (cases d) simp_all
  then show ?thesis using assms by (auto simp: risingFrom_def)
qed

lemma groupRuns_rising:
  fixes fl :: "int \<Rightarrow> int"
  assumes key: "\<And>t. t \<in> set ts \<Longrightarrow> key (At t) = At (fl t)"
    and same: "\<And>t. t \<in> set ts \<Longrightarrow> fl t = c \<Longrightarrow> same (At t) (At c)"
    and sorted: "sorted_wrt (<) ts"
    and mono: "\<And>a b. a \<le> b \<Longrightarrow> fl a \<le> fl b"
    and lower: "\<And>t. t \<in> set ts \<Longrightarrow> c \<le> fl t"
    and start: "0 < n \<or> (ts \<noteq> [] \<and> fl (hd ts) = c)"
    and idem: "\<And>t. t \<in> set ts \<Longrightarrow> same (At t) (At (fl t))"
  shows "risingFrom (At c) (groupRuns same key (At c) n (map At ts))"
  using assms
proof (induction ts arbitrary: c n)
  case Nil
  then show ?case by (simp add: risingFrom_def)
next
  case (Cons t ts)
  show ?case
  proof (cases "same (At t) (At c)")
    case True
    have "risingFrom (At c) (groupRuns same key (At c) (n + 1) (map At ts))"
    proof (rule Cons.IH)
      show "sorted_wrt (<) ts" using Cons.prems(3) by simp
    qed (use Cons.prems in auto)
    then show ?thesis using True by simp
  next
    case False
    then have ne: "fl t \<noteq> c" using Cons.prems(2)[of t] by auto
    then have lt: "c < fl t" using Cons.prems(5)[of t] by simp
    have n: "0 < n" using Cons.prems(6) ne by auto
    have "risingFrom (At (fl t)) (groupRuns same key (At (fl t)) 1 (map At ts))"
    proof (rule Cons.IH)
      show "sorted_wrt (<) ts" using Cons.prems(3) by simp
      show "\<And>u. u \<in> set ts \<Longrightarrow> fl t \<le> fl u"
        using Cons.prems(3,4) by (simp add: less_imp_le)
      show "\<And>u. u \<in> set ts \<Longrightarrow> fl u = fl t \<Longrightarrow> same (At u) (At (fl t))"
        using Cons.prems(7) by (metis list.set_intros(2))
    qed (use Cons.prems in auto)
    then have "risingFrom (At c)
        (\<lparr>headerDate = At c, headerSpan = Fin (of_nat n)\<rparr> # groupRuns same key (At (fl t)) 1 (map At ts))"
      using lt n by (intro risingFrom_Cons) simp_all
    then show ?thesis using False Cons.prems(1)[of t] by simp
  qed
qed

lemma TimeClip_valid [simp]: "validTime t \<Longrightarrow> TimeClip t = At t"
  by (simp add: TimeClip_def validTime_def)

lemma floor_valid:
  assumes "validTime t" and "0 < n" and "n dvd 8640000000000000"
  shows "validTime (t div n * n)"
proof -
  obtain k where k: "8640000000000000 = n * k" using assms(3) by (auto simp: dvd_def)
  have up: "t div n * n \<le> t" using div_lower[OF assms(2), of t] by (simp add: mult.commute)
  have "- (n * k) \<le> t" using assms(1) k by (simp add: validTime_def)
  then have "n * (- k) < n * (t div n + 1)"
    using div_upper[OF assms(2), of t] by (simp add: algebra_simps)
  then have "- k < t div n + 1" using assms(2) by (simp only: mult_less_cancel_left_pos)
  then have "- k \<le> t div n" by simp
  from mult_right_mono[OF this, of n] have "- (n * k) \<le> t div n * n"
    using assms(2) by (simp add: mult.commute)
  then show ?thesis using up assms(1) k by (simp add: validTime_def)
qed

lemma Day_hour: "Day t = (t div msPerHour) div 24"
  by (simp add: Day_def msPerDay_def msPerHour_def zdiv_zmult2_eq[symmetric])

lemma hour_start: "Day t * msPerDay + HourFromTime t * msPerHour = t div msPerHour * msPerHour"
proof -
  define q where "q = t div msPerHour"
  define a where "a = q div 24"
  define b where "b = q mod 24"
  have "q = 24 * a + b" by (simp add: a_def b_def)
  then have "a * 86400000 + b * 3600000 = q * 3600000" by simp
  then show ?thesis
    unfolding Day_hour HourFromTime_def q_def[symmetric] a_def[symmetric] b_def[symmetric]
    by (simp add: msPerDay_def msPerHour_def)
qed

lemma startOfHour_At:
  "validTime t \<Longrightarrow> startOfHour (At t) = At (t div msPerHour * msPerHour)"
  using floor_valid[of t msPerHour] hour_start[of t]
  by (simp add: startOfHour_def setMinutes3_def MakeDate_def MakeTime_def msPerHour_def)

lemma startOfDay_At:
  "validTime t \<Longrightarrow> startOfDay (At t) = At (Day t * msPerDay)"
  using floor_valid[of t msPerDay]
  by (simp add: startOfDay_def setHours4_def MakeDate_def MakeTime_def msPerDay_def Day_def)

lemma Day_cong:
  "Day t = Day u \<Longrightarrow>
   YearFromTime t = YearFromTime u \<and> MonthFromTime t = MonthFromTime u \<and>
   DateFromTime t = DateFromTime u"
  by (simp add: YearFromTime_def MonthFromTime_def DateFromTime_def DayWithinYear_def)

lemma jeq_Fin [simp]: "jeq (Fin a) (Fin b) = (a = b)"
  by (simp add: jeq_def)

lemma sameHour_floor: "sameHour (At t) (At (t div msPerHour * msPerHour))"
proof -
  have h: "(t div msPerHour * msPerHour) div msPerHour = t div msPerHour"
    by (simp add: msPerHour_def)
  then have d: "Day (t div msPerHour * msPerHour) = Day t" by (simp add: Day_hour)
  show ?thesis
    using Day_cong[OF d] h
    by (simp add: sameHour_def getHours_def getDate_def getMonth_def getFullYear_def
        HourFromTime_def)
qed

lemma sameDay_floor: "sameDay (At t) (At (Day t * msPerDay))"
proof -
  have d: "Day (Day t * msPerDay) = Day t" by (simp add: Day_def msPerDay_def)
  show ?thesis
    using Day_cong[OF d]
    by (simp add: sameDay_def getDate_def getMonth_def getFullYear_def)
qed

lemma groupByHour_rising:
  assumes "sorted_wrt (<) (t # ts)" and "\<forall>u \<in> set (t # ts). validTime u"
  shows "risingFrom (startOfHour (At t)) (groupByHour (startOfHour (At t)) 0 (map At (t # ts)))"
proof -
  let ?fl = "\<lambda>u. u div msPerHour * msPerHour"
  have mono: "?fl a \<le> ?fl b" if "a \<le> b" for a b
    using that by (simp add: msPerHour_def zdiv_mono1)
  have "risingFrom (At (?fl t)) (groupRuns sameHour startOfHour (At (?fl t)) 0 (map At (t # ts)))"
  proof (rule groupRuns_rising[where fl = ?fl])
    show "\<And>u. u \<in> set (t # ts) \<Longrightarrow> startOfHour (At u) = At (?fl u)"
      using assms(2) by (auto simp: startOfHour_At)
    show "\<And>u. u \<in> set (t # ts) \<Longrightarrow> ?fl u = ?fl t \<Longrightarrow> sameHour (At u) (At (?fl t))"
      using sameHour_floor by metis
    show "sorted_wrt (<) (t # ts)" by (rule assms(1))
    show "\<And>a b. a \<le> b \<Longrightarrow> ?fl a \<le> ?fl b" by (rule mono)
    show "\<And>u. u \<in> set (t # ts) \<Longrightarrow> ?fl t \<le> ?fl u"
    proof -
      fix u assume "u \<in> set (t # ts)"
      then have "t \<le> u" using assms(1) by auto
      then show "?fl t \<le> ?fl u" by (rule mono)
    qed
    show "0 < (0::nat) \<or> t # ts \<noteq> [] \<and> ?fl (hd (t # ts)) = ?fl t" by simp
    show "\<And>u. u \<in> set (t # ts) \<Longrightarrow> sameHour (At u) (At (?fl u))" by (rule sameHour_floor)
  qed
  then show ?thesis using assms(2) by (simp add: startOfHour_At groupByHour_def)
qed

lemma groupByDay_rising:
  assumes "sorted_wrt (<) (t # ts)" and "\<forall>u \<in> set (t # ts). validTime u"
  shows "risingFrom (startOfDay (At t)) (groupByDay (startOfDay (At t)) 0 (map At (t # ts)))"
proof -
  let ?fl = "\<lambda>u. Day u * msPerDay"
  have mono: "?fl a \<le> ?fl b" if "a \<le> b" for a b
    using that by (simp add: msPerDay_def Day_def zdiv_mono1)
  have "risingFrom (At (?fl t)) (groupRuns sameDay startOfDay (At (?fl t)) 0 (map At (t # ts)))"
  proof (rule groupRuns_rising[where fl = ?fl])
    show "\<And>u. u \<in> set (t # ts) \<Longrightarrow> startOfDay (At u) = At (?fl u)"
      using assms(2) by (auto simp: startOfDay_At)
    show "\<And>u. u \<in> set (t # ts) \<Longrightarrow> ?fl u = ?fl t \<Longrightarrow> sameDay (At u) (At (?fl t))"
      using sameDay_floor by metis
    show "sorted_wrt (<) (t # ts)" by (rule assms(1))
    show "\<And>a b. a \<le> b \<Longrightarrow> ?fl a \<le> ?fl b" by (rule mono)
    show "\<And>u. u \<in> set (t # ts) \<Longrightarrow> ?fl t \<le> ?fl u"
    proof -
      fix u assume "u \<in> set (t # ts)"
      then have "t \<le> u" using assms(1) by auto
      then show "?fl t \<le> ?fl u" by (rule mono)
    qed
    show "0 < (0::nat) \<or> t # ts \<noteq> [] \<and> ?fl (hd (t # ts)) = ?fl t" by simp
    show "\<And>u. u \<in> set (t # ts) \<Longrightarrow> sameDay (At u) (At (?fl u))" by (rule sameDay_floor)
  qed
  then show ?thesis using assms(2) by (simp add: startOfDay_At groupByDay_def)
qed

lemma monthBlocks_stop:
  "\<not> date_lt iterDate endDate \<Longrightarrow> monthBlocks startDate endDate u iterDate = []"
  by (subst monthBlocks.simps) simp

lemma monthBlocks_step:
  "date_lt iterDate endDate \<Longrightarrow>
   monthBlocks startDate endDate u iterDate =
     (if date_lt (blockStartOf startDate iterDate) (blockEndOf endDate iterDate)
      then [\<lparr>headerDate = blockStartOf startDate iterDate,
             headerSpan = jdiv (jsub (getTime (blockEndOf endDate iterDate))
                                     (getTime (blockStartOf startDate iterDate)))
                               (Fin (of_int (u * 24 * 60 * 60 * 1000)))\<rparr>]
      else [])
     @ monthBlocks startDate endDate u (nextMonthStart iterDate)"
  by (subst monthBlocks.simps) (simp add: Let_def blockStartOf_def blockEndOf_def)

lemma blockStartOf_ge: "blockStartOf startDate (At i) = At b \<Longrightarrow> i \<le> b"
  by (cases startDate; cases "currentMonthStart (At i)")
     (auto simp: blockStartOf_def split: if_splits)

lemma blockEndOf_le:
  "blockEndOf endDate iterDate = At c \<Longrightarrow> \<exists>n. nextMonthStart iterDate = At n \<and> c \<le> n"
  by (cases endDate; cases "nextMonthStart iterDate")
     (auto simp: blockEndOf_def split: if_splits)

lemma monthBlocks_rising:
  "0 < u \<Longrightarrow> risingFrom iterDate (monthBlocks startDate endDate u iterDate)"
proof (induction startDate endDate u iterDate rule: monthBlocks.induct)
  case (1 startDate endDate u iterDate)
  show ?case
  proof (cases "date_lt iterDate endDate")
    case False
    then show ?thesis by (simp add: monthBlocks_stop)
  next
    case True
    then obtain i e where ie: "iterDate = At i" "endDate = At e" "i < e"
      by (cases iterDate; cases endDate) simp_all
    define rest where "rest = monthBlocks startDate endDate u (nextMonthStart iterDate)"
    have R: "risingFrom (nextMonthStart iterDate) rest"
      unfolding rest_def using "1.IH"[OF True refl refl refl refl] "1.prems" by simp
    have Ri: "risingFrom (At i) rest"
    proof (cases "nextMonthStart iterDate")
      case Invalid
      then show ?thesis by (simp add: rest_def monthBlocks_stop)
    next
      case (At n)
      then have "i < n" using nextMonthStart_after ie by simp
      then show ?thesis using R At risingFrom_weaken[of n rest i] by simp
    qed
    show ?thesis
    proof (cases "date_lt (blockStartOf startDate iterDate) (blockEndOf endDate iterDate)")
      case False
      then show ?thesis using Ri True by (simp add: monthBlocks_step rest_def ie)
    next
      case push: True
      then obtain b c where bc: "blockStartOf startDate iterDate = At b"
          "blockEndOf endDate iterDate = At c" "b < c"
        by (cases "blockStartOf startDate iterDate"; cases "blockEndOf endDate iterDate") simp_all
      have ib: "i \<le> b" using bc(1) ie blockStartOf_ge by simp
      obtain n where n: "nextMonthStart iterDate = At n" "c \<le> n"
        using blockEndOf_le[OF bc(2)] by blast
      have x: "0 < (of_int c - of_int b) / (86400000 * of_int u :: rat)"
        using bc(3) "1.prems" by simp
      have "risingFrom (At b)
              (\<lparr>headerDate = At b,
                headerSpan = Fin ((of_int c - of_int b) / (86400000 * of_int u))\<rparr> # rest)"
        using R n bc(3) x by (intro risingFrom_Cons[of n]) simp_all
      then have "risingFrom (At i)
              (\<lparr>headerDate = At b,
                headerSpan = Fin ((of_int c - of_int b) / (86400000 * of_int u))\<rparr> # rest)"
        using ib by (rule risingFrom_weaken)
      moreover have "(86400000 * of_int u :: rat) \<noteq> 0" using "1.prems" by simp
      ultimately show ?thesis
        using True push bc by (simp add: monthBlocks_step rest_def ie jsub_def)
    qed
  qed
qed

lemma blocksOf_sum:
  assumes "u \<noteq> 0"
  shows "spanSum (blocksOf u (b # bs))
         = Fin ((of_int (last (b # bs)) - of_int b) / (86400000 * of_int u))"
proof (induction bs arbitrary: b)
  case Nil
  then show ?case by simp
next
  case (Cons c bs)
  show ?case using Cons.IH[of c] assms by (simp add: add_divide_distrib[symmetric])
qed

lemma validTime_iff: "validTime t = (- 8640000000000000 \<le> t \<and> t \<le> 8640000000000000)"
  by (auto simp: validTime_def)

lemma DayFromYear_100: "DayFromYear 100 = - 683003"
  by (simp add: DayFromYear_def)

lemma year_100_lower:
  assumes "100 \<le> YearFromTime t"
  shows "- 683003 \<le> Day t" and "- 59011459200000 \<le> t"
proof -
  have "DayFromYear 100 \<le> DayFromYear (YearFromTime t)" using assms by (rule DayFromYear_mono)
  then show d: "- 683003 \<le> Day t"
    using YearFromDay_bounds[of "Day t"] by (simp add: YearFromTime_def DayFromYear_100)
  have "- 683003 * msPerDay \<le> Day t * msPerDay" using d by (simp add: msPerDay_def)
  then show "- 59011459200000 \<le> t" using Day_bounds[of t] by (simp add: msPerDay_def)
qed

lemma MakeFullYear_id: "100 \<le> y \<Longrightarrow> MakeFullYear y = y"
  by (simp add: MakeFullYear_def)

lemma monthOffset_nonneg: "0 \<le> monthOffset m l"
  by (simp add: monthOffset_def Let_def)

lemma currentMonthStart_plain:
  assumes "plainTime t"
  shows "\<exists>c. currentMonthStart (At t) = At c \<and> c \<le> t"
proof -
  define Y where "Y = YearFromTime t"
  define c where "c = MakeDay Y (MonthFromTime t) 1 * msPerDay"
  have y: "100 \<le> Y" using assms by (simp add: plainTime_def Y_def)
  have up: "c \<le> t"
    using monthStart_le[of t] Day_bounds[of t] by (simp add: c_def Y_def msPerDay_def)
  have "DayFromYear 100 \<le> DayFromYear Y" using y by (rule DayFromYear_mono)
  then have "- 683003 \<le> MakeDay Y (MonthFromTime t) 1"
    using MonthFromTime_range[of t] monthOffset_nonneg[of "MonthFromTime t" "InLeapYear Y"]
    by (simp add: MakeDay_month DayFromYear_100)
  then have lo: "- 59011459200000 \<le> c" by (simp add: c_def msPerDay_def)
  have "validTime c" using up lo assms by (simp add: validTime_iff plainTime_def msPerDay_def)
  then show ?thesis
    using up by (simp add: currentMonthStart_At MakeFullYear_id[OF y] Y_def[symmetric] c_def[symmetric])
qed

lemma DayFromYear_next_le: "DayFromYear (y + 1) \<le> DayFromYear y + 367"
proof -
  have a: "(y + 1 - 1969) div 4 \<le> (y - 1969) div 4 + 1"
    using div_lower[of 4 "y + 1 - 1969"] div_upper[of 4 "y - 1969"] by simp
  have b: "(y - 1901) div 100 \<le> (y + 1 - 1901) div 100" by (simp add: zdiv_mono1)
  have c: "(y + 1 - 1601) div 400 \<le> (y - 1601) div 400 + 1"
    using div_lower[of 400 "y + 1 - 1601"] div_upper[of 400 "y - 1601"] by simp
  have d: "DayFromYear y = 365 * y - 719050 + (y - 1969) div 4 - (y - 1901) div 100 + (y - 1601) div 400"
    unfolding DayFromYear_def by simp
  have d': "DayFromYear (y + 1) = 365 * y - 718685 + (y + 1 - 1969) div 4
              - (y + 1 - 1901) div 100 + (y + 1 - 1601) div 400"
    unfolding DayFromYear_def by simp
  show ?thesis unfolding d d' using a b c by linarith
qed

lemma monthOffset_next_le:
  "0 \<le> dwy \<Longrightarrow> monthOfDay dwy l < 11 \<Longrightarrow> monthOffset (monthOfDay dwy l + 1) l \<le> dwy + 31"
  using monthOfDay_cases[of dwy l] by (elim disjE conjE) (simp_all add: monthOffset_def)

lemma monthOffset_11: "monthOfDay dwy l = 11 \<Longrightarrow> 334 \<le> dwy"
  using monthOfDay_cases[of dwy l] by (cases l) auto

lemma nextMonthStart_le: "MakeDay (YearFromTime t) (MonthFromTime t + 1) 1 \<le> Day t + 33"
proof (cases "MonthFromTime t < 11")
  case True
  then have "monthOffset (MonthFromTime t + 1) (InLeapYear (YearFromTime t)) \<le> DayWithinYear t + 31"
    unfolding MonthFromTime_def using DayWithinYear_nonneg by (intro monthOffset_next_le)
  moreover have "0 \<le> MonthFromTime t + 1" "MonthFromTime t + 1 \<le> 11"
    using True MonthFromTime_range[of t] by auto
  ultimately show ?thesis
    by (simp add: MakeDay_month DayWithinYear_def)
next
  case False
  then have m: "MonthFromTime t = 11" using MonthFromTime_range[of t] by auto
  then have "334 \<le> DayWithinYear t" unfolding MonthFromTime_def by (rule monthOffset_11)
  moreover have "MakeDay (YearFromTime t) 12 1 = DayFromYear (YearFromTime t + 1)"
    by (simp add: MakeDay_def Let_def monthOffset_def)
  ultimately show ?thesis using DayFromYear_next_le[of "YearFromTime t"] m
    by (simp add: DayWithinYear_def)
qed

lemma nextMonthStart_plain:
  assumes "plainTime t"
  shows "\<exists>n. nextMonthStart (At t) = At n \<and> t < n"
proof -
  define Y where "Y = YearFromTime t"
  define n where "n = MakeDay Y (MonthFromTime t + 1) 1 * msPerDay"
  have y: "100 \<le> Y" using assms by (simp add: plainTime_def Y_def)
  have "n \<le> (Day t + 33) * msPerDay"
    using nextMonthStart_le[of t] by (simp add: n_def Y_def msPerDay_def)
  then have up: "n \<le> t + 33 * msPerDay"
    using Day_bounds[of t] by (simp add: algebra_simps)
  have "(Day t + 1) * msPerDay \<le> n"
    using nextMonthStart_gt[of t] by (simp add: n_def Y_def msPerDay_def)
  then have gt: "t < n" using Day_bounds[of t] by (simp add: algebra_simps)
  have "validTime n"
    using up gt year_100_lower(2)[of t] assms
    by (simp add: validTime_iff plainTime_def msPerDay_def Y_def)
  then show ?thesis
    using gt by (simp add: nextMonthStart_At MakeFullYear_id[OF y] Y_def[symmetric] n_def[symmetric])
qed

lemma YearFromTime_plain: "plainTime a \<Longrightarrow> a \<le> i \<Longrightarrow> i \<le> e \<Longrightarrow> plainTime e \<Longrightarrow> plainTime i"
  using YearFromTime_mono[of a i] by (simp add: plainTime_def)

lemma blockStartOf_plain:
  assumes "plainTime i" and "a \<le> i"
  shows "blockStartOf (At a) (At i) = At i"
proof -
  obtain c where c: "currentMonthStart (At i) = At c" "c \<le> i"
    using currentMonthStart_plain[OF assms(1)] by blast
  then show ?thesis using assms(2) by (auto simp: blockStartOf_def)
qed

lemma nextMonthStart_dvd: "nextMonthStart (At t) = At n \<Longrightarrow> msPerDay dvd n"
  unfolding nextMonthStart_At by (drule TimeClip_At) simp

lemma monthBlocks_tiles:
  assumes "0 < u" and "plainTime a" and "plainTime e" and "a \<le> i" and "i < e"
  shows "\<exists>bs. sorted_wrt (<) (i # bs) \<and> last (i # bs) = e \<and>
              (\<forall>b \<in> set bs. b = e \<or> msPerDay dvd b) \<and>
              monthBlocks (At a) (At e) u (At i) = blocksOf u (i # bs)"
  using assms
proof (induction "At a" "At e" u "At i" arbitrary: i rule: monthBlocks.induct)
  case (1 u i)
  have lt: "date_lt (At i) (At e)" using "1.prems" by simp
  have pi: "plainTime i"
    using "1.prems" YearFromTime_plain[of a i e] by simp
  obtain n where n: "nextMonthStart (At i) = At n" "i < n"
    using nextMonthStart_plain[OF pi] by blast
  have nd: "msPerDay dvd n" using n(1) by (rule nextMonthStart_dvd)
  have bs: "blockStartOf (At a) (At i) = At i"
    using pi "1.prems" by (simp add: blockStartOf_plain)
  show ?case
  proof (cases "n < e")
    case True
    have be: "blockEndOf (At e) (At i) = At n" using True n by (simp add: blockEndOf_def)
    have "\<exists>bs. sorted_wrt (<) (n # bs) \<and> last (n # bs) = e \<and>
              (\<forall>b \<in> set bs. b = e \<or> msPerDay dvd b) \<and>
              monthBlocks (At a) (At e) u (At n) = blocksOf u (n # bs)"
      using "1.hyps"[OF lt refl refl refl refl, of n] n "1.prems" True by simp
    then obtain bs' where bs': "sorted_wrt (<) (n # bs')" "last (n # bs') = e"
        "\<forall>b \<in> set bs'. b = e \<or> msPerDay dvd b"
        "monthBlocks (At a) (At e) u (At n) = blocksOf u (n # bs')" by blast
    have "sorted_wrt (<) (i # n # bs')" using bs'(1) n(2) by auto
    moreover have "last (i # n # bs') = e" using bs'(2) by simp
    moreover have "\<forall>b \<in> set (n # bs'). b = e \<or> msPerDay dvd b" using bs'(3) nd by simp
    moreover have "monthBlocks (At a) (At e) u (At i) = blocksOf u (i # n # bs')"
      using lt bs be n bs'(4) by (simp add: monthBlocks_step)
    ultimately show ?thesis by blast
  next
    case False
    have be: "blockEndOf (At e) (At i) = At e" using False n by (auto simp: blockEndOf_def)
    have "monthBlocks (At a) (At e) u (At n) = []" using False by (simp add: monthBlocks_stop)
    then have "monthBlocks (At a) (At e) u (At i) = blocksOf u (i # [e])"
      using lt bs be n "1.prems" by (simp add: monthBlocks_step)
    moreover have "sorted_wrt (<) (i # [e])" "last (i # [e]) = e" using "1.prems" by simp_all
    moreover have "\<forall>b \<in> set [e]. b = e \<or> msPerDay dvd b" by simp
    ultimately show ?thesis by blast
  qed
qed




lemma addDays_range_end:
  assumes "addDays (At t) n = At e" and "n \<noteq> 0"
  shows "e = t + n * msPerDay" and "validTime e"
proof -
  have m: "MakeDay (YearFromTime t) (MonthFromTime t) (DateFromTime t + n) * msPerDay + TimeWithinDay t
        = t + n * msPerDay"
    unfolding MakeDay_roundtrip by (simp add: Day_def TimeWithinDay_def algebra_simps)
  have c: "TimeClip (t + n * msPerDay) = At e"
    using assms m by (simp add: addDays_def setDate_def getDate_def MakeDate_def)
  then show "e = t + n * msPerDay" by (rule TimeClip_At)
  show "validTime e" using c by (simp add: TimeClip_def validTime_def split: if_splits)
qed

lemma risingFrom_props:
  "risingFrom lo hs \<Longrightarrow>
   (\<forall>h \<in> set hs. jlt (Fin 0) (headerSpan h)) \<and>
   sorted_wrt (\<lambda>h k. date_lt (headerDate h) (headerDate k)) hs"
  by (simp add: risingFrom_def)

text \<open>
  Claim C10.  For strictly ascending units (valid dates) and every view mode, every
  header unit returned by \<open>getHigherLevelUnits\<close> has a positive span, and the dates of
  the header units increase strictly.
\<close>

theorem header_units_positive_rising:
  assumes "sorted_wrt (<) ts" and "\<forall>t \<in> set ts. validTime t"
  shows "(\<forall>h \<in> set (getHigherLevelUnits (map At ts) viewMode). jlt (Fin 0) (headerSpan h)) \<and>
         sorted_wrt (\<lambda>h k. date_lt (headerDate h) (headerDate k))
           (getHigherLevelUnits (map At ts) viewMode)"
proof (cases ts)
  case Nil
  then show ?thesis by (simp add: getHigherLevelUnits_def)
next
  case (Cons t ts')
  have "\<exists>lo. risingFrom lo (getHigherLevelUnits (map At ts) viewMode)"
  proof (cases viewMode)
    case MINUTE
    then show ?thesis
      using groupByHour_rising[of t ts'] assms Cons by (auto simp: getHigherLevelUnits_def)
  next
    case HOUR
    then show ?thesis
      using groupByDay_rising[of t ts'] assms Cons by (auto simp: getHigherLevelUnits_def)
  next
    case DAY
    then show ?thesis
      using monthBlocks_rising[of 1] Cons
      by (auto simp: getHigherLevelUnits_def Let_def intro: exI[of _ "At t"])
  next
    case WEEK
    then show ?thesis
      using monthBlocks_rising[of 7] Cons
      by (auto simp: getHigherLevelUnits_def Let_def intro: exI[of _ "At t"])
  qed (auto simp: getHigherLevelUnits_def Cons intro: exI[of _ "At t"])
  then show ?thesis using risingFrom_props by blast
qed

theorem header_units_positive_rising_witness:
  "sorted_wrt (<) [1706742000000, 1706745600000, 1706749200000 :: int] \<and>
   validTime 1706742000000 \<and> validTime 1706745600000 \<and> validTime 1706749200000 \<and>
   list_all (\<lambda>h. jlt (Fin 0) (headerSpan h))
     (getHigherLevelUnits (map At [1706742000000, 1706745600000, 1706749200000]) HOUR) \<and>
   sorted_wrt (\<lambda>h k. date_lt (headerDate h) (headerDate k))
     (getHigherLevelUnits (map At [1706742000000, 1706745600000, 1706749200000]) HOUR)"
proof -
  have s: "sorted_wrt (<) [1706742000000, 1706745600000, 1706749200000 :: int]" by simp
  have v: "\<forall>t \<in> set [1706742000000, 1706745600000, 1706749200000]. validTime t"
    by (simp add: validTime_def)
  show ?thesis
    using header_units_positive_rising[OF s v, of HOUR] v
    by (simp add: list_all_iff)
qed

lemma getHigherLevelUnits_blocks:
  assumes "viewMode = WEEK \<or> (viewMode = DAY \<and> 2 \<le> length ts)" and "ts \<noteq> []"
    and "hd ts \<le> last ts" and "addDays (At (last ts)) (unitDays viewMode) = At e"
    and "plainTime (hd ts)" and "plainTime e"
  shows "\<exists>bs. sorted_wrt (<) (hd ts # bs) \<and> last (hd ts # bs) = e \<and>
              (\<forall>b \<in> set bs. b = e \<or> msPerDay dvd b) \<and>
              getHigherLevelUnits (map At ts) viewMode = blocksOf (unitDays viewMode) (hd ts # bs)"
proof -
  define u where "u = unitDays viewMode"
  define a where "a = hd ts"
  have u: "0 < u" "u \<noteq> 0" by (simp_all add: u_def unitDays_def)
  have ad: "addDays (At (last ts)) u = At e" using assms(4) by (simp add: u_def)
  have e: "e = last ts + u * msPerDay" using ad u(2) by (rule addDays_range_end)
  have pa: "plainTime a" using assms by (simp add: a_def)
  have ae: "a < e" using assms(3) u unfolding e by (simp add: a_def msPerDay_def)
  have g: "getHigherLevelUnits (map At ts) viewMode = monthBlocks (At a) (At e) u (At a)"
  proof (cases ts)
    case Nil
    then show ?thesis using assms(2) by simp
  next
    case (Cons t ts')
    have l: "last (At t # map At ts') = At (last ts)"
      using Cons by (simp add: last_map flip: list.map)
    show ?thesis
      using assms(1) ad l Cons unfolding getHigherLevelUnits_def Let_def a_def
      by (auto simp: u_def unitDays_def)
  qed
  obtain bs where bs: "sorted_wrt (<) (a # bs)" "last (a # bs) = e"
      "\<forall>b \<in> set bs. b = e \<or> msPerDay dvd b"
      "monthBlocks (At a) (At e) u (At a) = blocksOf u (a # bs)"
    using monthBlocks_tiles[of u a e a] u(1) pa assms(6) ae by auto
  have "sorted_wrt (<) (hd ts # bs)" "last (hd ts # bs) = e"
    "\<forall>b \<in> set bs. b = e \<or> msPerDay dvd b"
    "getHigherLevelUnits (map At ts) viewMode = blocksOf (unitDays viewMode) (hd ts # bs)"
    using g bs unfolding a_def u_def by simp_all
  then show ?thesis by blast
qed

text \<open>
  With the quotients taken exactly, the spans of the day and week views add up to the
  length of the range in units: the elapsed days in the day view, the elapsed days
  divided by seven in the week view.  (A \<open>number\<close> holds a quotient such as \<open>10 / 7\<close>
  rounded, so in an execution the equation holds up to the rounding of the quotients
  and of their sum; it is exact when every block is a whole number of units.)
\<close>

lemma header_span_sum_exact_quotients:
  assumes "viewMode = WEEK \<or> (viewMode = DAY \<and> 2 \<le> length ts)" and "ts \<noteq> []"
    and "hd ts \<le> last ts" and "addDays (At (last ts)) (unitDays viewMode) = At e"
    and "plainTime (hd ts)" and "plainTime e"
  shows "spanSum (getHigherLevelUnits (map At ts) viewMode)
         = Fin ((of_int e - of_int (hd ts)) / (86400000 * of_int (unitDays viewMode)))"
proof -
  obtain bs where bs: "last (hd ts # bs) = e"
      "getHigherLevelUnits (map At ts) viewMode = blocksOf (unitDays viewMode) (hd ts # bs)"
    using getHigherLevelUnits_blocks[OF assms] by blast
  have "unitDays viewMode \<noteq> 0" by (simp add: unitDays_def)
  then show ?thesis
    using blocksOf_sum[of "unitDays viewMode" "hd ts" bs] bs by simp
qed











section \<open>The round trip\<close>

text \<open>
  Claim C1 as stated: in the minute, hour, day and week views the round trip of an
  interval inside the window ends within less than one grid quantum of the snapped
  form of the interval.  It fails in the day view when a day is narrower than the
  minimum width of 20 pixels (\<open>unitWidth = 5\<close>: an interval within 2024-01-03 comes
  back ending on 2024-01-06, three days after the end of its day), and in the hour and
  minute views at \<open>unitWidth = 150\<close>, where the start is rounded to the nearest unit
  and the span is added to it (00:36 to 00:54 comes back ending at 01:59:59.999, one
  hour after the end of its hour; likewise for seconds 36 to 54 of a minute).
\<close>

theorem round_trip_counterexample:
  "newEndDate (roundTrip (newDate (Fin 2024) (Fin 0) (Fin 3) (Fin 0) 0 0 0)
                         (newDate (Fin 2024) (Fin 0) (Fin 3) (Fin 12) 0 0 0)
                         (newDate (Fin 2024) (Fin 0) (Fin 1) (Fin 0) 0 0 0)
                         (newDate (Fin 2024) (Fin 0) (Fin 31) (Fin 0) 0 0 0)
                         (Fin 30) (Fin 5) DAY)
     = newDate (Fin 2024) (Fin 0) (Fin 6) (Fin 23) 59 59 999 \<and>
   endOfDay (newDate (Fin 2024) (Fin 0) (Fin 3) (Fin 12) 0 0 0)
     = newDate (Fin 2024) (Fin 0) (Fin 3) (Fin 23) 59 59 999 \<and>
   newEndDate (roundTrip (newDate (Fin 2024) (Fin 0) (Fin 1) (Fin 0) 36 0 0)
                         (newDate (Fin 2024) (Fin 0) (Fin 1) (Fin 0) 54 0 0)
                         (newDate (Fin 2024) (Fin 0) (Fin 1) (Fin 0) 0 0 0)
                         (newDate (Fin 2024) (Fin 0) (Fin 2) (Fin 0) 0 0 0)
                         (Fin 24) (Fin 150) HOUR)
     = newDate (Fin 2024) (Fin 0) (Fin 1) (Fin 1) 59 59 999 \<and>
   newEndDate (roundTrip (newDate (Fin 2024) (Fin 0) (Fin 1) (Fin 0) 0 36 0)
                         (newDate (Fin 2024) (Fin 0) (Fin 1) (Fin 0) 0 54 0)
                         (newDate (Fin 2024) (Fin 0) (Fin 1) (Fin 0) 0 0 0)
                         (newDate (Fin 2024) (Fin 0) (Fin 1) (Fin 1) 0 0 0)
                         (Fin 60) (Fin 150) MINUTE)
     = newDate (Fin 2024) (Fin 0) (Fin 1) (Fin 0) 1 59 999 \<and>
   jle (Fin (of_int (3 * msPerDay)))
     (jsub (getTime (newDate (Fin 2024) (Fin 0) (Fin 6) (Fin 23) 59 59 999))
           (getTime (newDate (Fin 2024) (Fin 0) (Fin 3) (Fin 23) 59 59 999))) \<and>
   jle (Fin (of_int msPerHour))
     (jsub (getTime (newDate (Fin 2024) (Fin 0) (Fin 1) (Fin 1) 59 59 999))
           (getTime (newDate (Fin 2024) (Fin 0) (Fin 1) (Fin 0) 59 59 999))) \<and>
   jle (Fin (of_int msPerMinute))
     (jsub (getTime (newDate (Fin 2024) (Fin 0) (Fin 1) (Fin 0) 1 59 999))
           (getTime (newDate (Fin 2024) (Fin 0) (Fin 1) (Fin 0) 0 59 999)))"
  by code_simp

text \<open>
  The two directions in the day and week views, for a window and an interval of the
  kind above: the position of the interval is a whole number of days from the start
  of the window's first day and a whole number of days wide, and such a position
  gives back the days it stands for.
\<close>

lemma Day_mult [simp]: "Day (k * msPerDay) = k" "TimeWithinDay (k * msPerDay) = 0"
  by (simp_all add: Day_def TimeWithinDay_def msPerDay_def)

lemma Day_mult_add: "0 \<le> r \<Longrightarrow> r < msPerDay \<Longrightarrow> Day (k * msPerDay + r) = k"
  by (simp add: Day_def msPerDay_def div_pos_pos_trivial)

lemma setHours4_At:
  "validTime (Day t * msPerDay + MakeTime h m s ms) \<Longrightarrow>
   setHours4 (At t) h m s ms = At (Day t * msPerDay + MakeTime h m s ms)"
  by (simp add: setHours4_def MakeDate_def)

lemma setDate_At:
  "validTime (t + n * msPerDay) \<Longrightarrow>
   setDate (At t) (Fin (of_int (DateFromTime t + n))) = At (t + n * msPerDay)"
proof -
  assume v: "validTime (t + n * msPerDay)"
  have "MakeDay (YearFromTime t) (MonthFromTime t) (DateFromTime t + n) * msPerDay + TimeWithinDay t
        = t + n * msPerDay"
    unfolding MakeDay_roundtrip by (simp add: Day_def TimeWithinDay_def algebra_simps)
  then show ?thesis using v by (simp add: setDate_def MakeDate_def)
qed

lemma dayStartTime_At:
  assumes "100 \<le> YearFromTime t" and "validTime (Day t * msPerDay)"
  shows "dayStartTime (At t) = Fin (of_int (Day t * msPerDay))"
proof -
  have "MakeDay (YearFromTime t) (MonthFromTime t) (DateFromTime t) = Day t"
    using MakeDay_roundtrip[of t 0] by simp
  then show ?thesis
    using assms
    by (simp add: dayStartTime_def getFullYear_def getMonth_def getDate_def newDate_Fin
        MakeFullYear_id MakeDate_def MakeTime_def)
qed

lemma dayEndTime_At:
  assumes "100 \<le> YearFromTime t" and "validTime (Day t * msPerDay + msPerDay - 1)"
  shows "dayEndTime (At t) = Fin (of_int (Day t * msPerDay + msPerDay - 1))"
proof -
  have md: "MakeDay (YearFromTime t) (MonthFromTime t) (DateFromTime t) = Day t"
    using MakeDay_roundtrip[of t 0] by simp
  have mt: "Day t * msPerDay + MakeTime 23 59 59 999 = Day t * msPerDay + msPerDay - 1"
    by (simp add: MakeTime_def msPerDay_def msPerHour_def msPerMinute_def msPerSecond_def)
  have "newDate (getFullYear (At t)) (getMonth (At t)) (getDate (At t)) (Fin 23) 59 59 999
        = TimeClip (Day t * msPerDay + MakeTime 23 59 59 999)"
    using assms(1) md
    by (simp add: getFullYear_def getMonth_def getDate_def newDate_Fin MakeFullYear_id MakeDate_def)
  then show ?thesis
    unfolding dayEndTime_def mt using assms(2) by simp
qed

lemma jround_of_int [simp]: "jround (Fin (of_int i)) = Fin (of_int i)"
proof -
  have "\<lfloor>(of_int i :: rat) + 1 / 2\<rfloor> = i" by (simp add: floor_unique)
  then show ?thesis by simp
qed

lemma round_day_span:
  assumes "1 \<le> m"
  shows "\<lfloor>(of_int (m * msPerDay - 1) / of_int msPerDay :: rat) + 1 / 2\<rfloor> = m"
proof (rule floor_unique)
  have e: "(of_int (m * msPerDay - 1) / of_int msPerDay :: rat) = of_int m - 1 / 86400000"
    by (simp add: msPerDay_def field_simps)
  show "of_int m \<le> (of_int (m * msPerDay - 1) / of_int msPerDay :: rat) + 1 / 2"
    unfolding e by simp
  show "(of_int (m * msPerDay - 1) / of_int msPerDay :: rat) + 1 / 2 < of_int m + 1"
    unfolding e by simp
qed

lemma jmax_Fin [simp]: "jmax (Fin a) (Fin b) = Fin (max a b)"
  by (simp add: jmax_def max_def)

lemma jmin_Fin_Fin [simp]: "jmin (Fin a) (Fin b) = Fin (min a b)"
  by (simp add: jmin_def min_def)

lemma jsub_Fin [simp]: "jsub (Fin a) (Fin b) = Fin (a - b)"
  by (simp add: jsub_def)

lemma newDateOfNumber_of_int [simp]:
  "validTime t \<Longrightarrow> newDateOfNumber (Fin (of_int t)) = At t"
proof -
  assume "validTime t"
  then have "\<bar>of_int t :: rat\<bar> \<le> 8640000000000000"
    unfolding validTime_def by (metis of_int_abs of_int_le_iff of_int_numeral)
  then show ?thesis by simp
qed

lemma dayWindow_facts:
  assumes "dayWindow s e ts te"
  shows "100 \<le> YearFromTime s" "100 \<le> YearFromTime ts" "100 \<le> YearFromTime te"
    and "validTime s" "validTime ts" "validTime te"
    and "validTime (Day s * msPerDay)" "validTime (Day ts * msPerDay)"
    and "validTime (Day te * msPerDay + msPerDay - 1)"
    and "Day s \<le> Day ts" "Day ts \<le> Day te"
proof -
  have p: "plainTime s" "plainTime e" "s \<le> ts" "ts \<le> te" "te \<le> e"
    using assms by (simp_all add: dayWindow_def)
  show y: "100 \<le> YearFromTime s" using p(1) by (simp add: plainTime_def)
  show yt: "100 \<le> YearFromTime ts" using y YearFromTime_mono[OF p(3)] by simp
  show "100 \<le> YearFromTime te" using yt YearFromTime_mono[OF p(4)] by simp
  have lo: "- 59011459200000 \<le> Day s * msPerDay"
    using year_100_lower(1)[OF y] by (simp add: msPerDay_def)
  have hi: "e + 40 * msPerDay \<le> 8640000000000000" using p(2) by (simp add: plainTime_def)
  have d: "Day s \<le> Day ts" "Day ts \<le> Day te" using p(3,4) by (simp_all add: Day_mono)
  then show "Day s \<le> Day ts" "Day ts \<le> Day te" .
  have dd: "Day s * msPerDay \<le> Day ts * msPerDay" "Day ts * msPerDay \<le> Day te * msPerDay"
    using d by (simp_all add: msPerDay_def)
  show "validTime s" "validTime ts" "validTime te"
     "validTime (Day s * msPerDay)" "validTime (Day ts * msPerDay)"
     "validTime (Day te * msPerDay + msPerDay - 1)"
    using lo hi dd p(3,4,5) Day_bounds[of s] Day_bounds[of ts] Day_bounds[of te]
    by (simp_all add: validTime_iff msPerDay_def)
qed

lemma alignedPosition_DAY:
  assumes w: "dayWindow s e ts te" and N: "0 < N" and U: "0 < U"
  shows "alignedPosition (At ts) (At te) (At s) (At e) (Fin N) (Fin U) DAY
         = \<lparr>leftPx = Fin (of_int (Day ts - Day s) * U),
            widthPx = Fin (of_int (Day te - Day ts + 1) * U)\<rparr>"
proof -
  note f = dayWindow_facts[OF w]
  have p: "s \<le> ts" "te \<le> e" using w by (simp_all add: dayWindow_def)
  define i where "i = Day ts - Day s"
  define m where "m = Day te - Day ts + 1"
  have m1: "1 \<le> m" using f(11) by (simp add: m_def)
  have i0: "0 \<le> i" using f(10) by (simp add: i_def)
  have t0: "jmax (getTime (At ts)) (getTime (At s)) = Fin (of_int ts)"
    using p(1) by (simp add: max_def)
  have t1: "jmin (getTime (At te)) (getTime (At e)) = Fin (of_int te)"
    using p(2) by (simp add: min_def)
  have range: "totalTimelineRange DAY (Fin N) x y = Fin (N * 86400000)" for x y
    by (simp add: totalTimelineRange_def)
  have dist: "jsub (dayStartTime (At ts)) (dayStartTime (At s)) = Fin (of_int (i * msPerDay))"
    using f by (simp add: dayStartTime_At i_def algebra_simps)
  have dur: "jsub (dayEndTime (At te)) (dayStartTime (At ts)) = Fin (of_int (m * msPerDay - 1))"
    using f by (simp add: dayStartTime_At dayEndTime_At m_def algebra_simps)
  have l0: "jmul (jdiv (Fin (of_int (i * msPerDay))) (Fin (N * 86400000))) (jmul (Fin N) (Fin U))
            = Fin (of_int i * U)"
    using N by (simp add: msPerDay_def)
  have w0: "jmul (jdiv (Fin (of_int (m * msPerDay - 1))) (Fin (N * 86400000))) (jmul (Fin N) (Fin U))
            = Fin (of_int (m * msPerDay - 1) / of_int msPerDay * U)"
    using N by (simp add: msPerDay_def)
  have a: "alignedPosition (At ts) (At te) (At s) (At e) (Fin N) (Fin U) DAY
           = alignPixels DAY (Fin U) (Fin (of_int i * U))
               (Fin (of_int (m * msPerDay - 1) / of_int msPerDay * U))"
    unfolding alignedPosition_def timelineStartTimeOf_def timelineEndTimeOf_def
      taskStartTimeOf_def taskEndTimeOf_def Let_def t0 t1
    by (simp only: newDateOfNumber_of_int[OF f(5)] newDateOfNumber_of_int[OF f(6)]
        ViewMode.distinct simp_thms if_True if_False range dist dur l0 w0)
  have "jdiv (Fin (of_int i * U)) (Fin U) = Fin (of_int i)" using U by simp
  then have r1: "jround (jdiv (Fin (of_int i * U)) (Fin U)) = Fin (of_int i)"
    by (simp only: jround_of_int)
  have "jdiv (Fin (of_int (m * msPerDay - 1) / of_int msPerDay * U)) (Fin U)
        = Fin (of_int (m * msPerDay - 1) / of_int msPerDay)" using U by simp
  then have r2: "jround (jdiv (Fin (of_int (m * msPerDay - 1) / of_int msPerDay * U)) (Fin U))
            = Fin (of_int m)"
    by (simp only: jround.simps round_day_span[OF m1])
  have mx: "max U (of_int m * U) = of_int m * U"
    using m1 U by (simp add: max_def mult_le_cancel_right1)
  show ?thesis
    unfolding a alignPixels_def r1 r2 i_def[symmetric] m_def[symmetric]
    by (simp add: mx)
qed

lemma alignedPosition_WEEK:
  assumes w: "dayWindow s e ts te" and N: "0 < N" and U: "0 < U"
  shows "alignedPosition (At ts) (At te) (At s) (At e) (Fin N) (Fin U) WEEK
         = \<lparr>leftPx = Fin (of_int (Day ts - Day s) * (U / 7)),
            widthPx = Fin (of_int (Day te - Day ts + 1) * (U / 7))\<rparr>"
proof -
  note f = dayWindow_facts[OF w]
  have p: "s \<le> ts" "te \<le> e" using w by (simp_all add: dayWindow_def)
  define i where "i = Day ts - Day s"
  define m where "m = Day te - Day ts + 1"
  define q where "q = U / 7"
  have q: "0 < q" using U by (simp add: q_def)
  have m1: "1 \<le> m" using f(11) by (simp add: m_def)
  have t0: "jmax (getTime (At ts)) (getTime (At s)) = Fin (of_int ts)"
    using p(1) by (simp add: max_def)
  have t1: "jmin (getTime (At te)) (getTime (At e)) = Fin (of_int te)"
    using p(2) by (simp add: min_def)
  have range: "totalTimelineRange WEEK (Fin N) x y = Fin (N * 604800000)" for x y
    by (simp add: totalTimelineRange_def)
  have dist: "jsub (dayStartTime (At ts)) (dayStartTime (At s)) = Fin (of_int (i * msPerDay))"
    using f by (simp add: dayStartTime_At i_def algebra_simps)
  have dur: "jsub (dayEndTime (At te)) (dayStartTime (At ts)) = Fin (of_int (m * msPerDay - 1))"
    using f by (simp add: dayStartTime_At dayEndTime_At m_def algebra_simps)
  have l0: "jmul (jdiv (Fin (of_int (i * msPerDay))) (Fin (N * 604800000))) (jmul (Fin N) (Fin U))
            = Fin (of_int i * q)"
    using N by (simp add: msPerDay_def q_def)
  have w0: "jmul (jdiv (Fin (of_int (m * msPerDay - 1))) (Fin (N * 604800000))) (jmul (Fin N) (Fin U))
            = Fin (of_int (m * msPerDay - 1) / of_int msPerDay * q)"
    using N by (simp add: msPerDay_def q_def)
  have a: "alignedPosition (At ts) (At te) (At s) (At e) (Fin N) (Fin U) WEEK
           = alignPixels WEEK (Fin U) (Fin (of_int i * q))
               (Fin (of_int (m * msPerDay - 1) / of_int msPerDay * q))"
    unfolding alignedPosition_def timelineStartTimeOf_def timelineEndTimeOf_def
      taskStartTimeOf_def taskEndTimeOf_def Let_def t0 t1
    by (simp only: newDateOfNumber_of_int[OF f(5)] newDateOfNumber_of_int[OF f(6)]
        ViewMode.distinct simp_thms if_True if_False range dist dur l0 w0)
  have ppd: "jdiv (Fin U) (Fin 7) = Fin q" by (simp add: q_def)
  have "jdiv (Fin (of_int i * q)) (Fin q) = Fin (of_int i)" using q by simp
  then have r1: "jround (jdiv (Fin (of_int i * q)) (Fin q)) = Fin (of_int i)"
    by (simp only: jround_of_int)
  have "jdiv (Fin (of_int (m * msPerDay - 1) / of_int msPerDay * q)) (Fin q)
        = Fin (of_int (m * msPerDay - 1) / of_int msPerDay)" using q by simp
  then have r2: "jround (jdiv (Fin (of_int (m * msPerDay - 1) / of_int msPerDay * q)) (Fin q))
            = Fin (of_int m)"
    by (simp only: jround.simps round_day_span[OF m1])
  have mx: "max q (of_int m * q) = of_int m * q"
    using m1 q by (simp add: max_def mult_le_cancel_right1)
  show ?thesis
    unfolding a alignPixels_def Let_def ppd r1 r2 i_def[symmetric] m_def[symmetric] q_def[symmetric]
    by (simp add: mx)
qed

lemma day_chain:
  assumes "validTime (Day s * msPerDay)" and "validTime ((Day s + i + m) * msPerDay - 1)"
    and "0 \<le> i" and "1 \<le> m"
  shows "setHours4 (At s) 0 0 0 0 = At (Day s * msPerDay)"
    and "setDate (At (Day s * msPerDay)) (jadd (getDate (At (Day s * msPerDay))) (Fin (of_int i)))
         = At ((Day s + i) * msPerDay)"
    and "setHours4 (At ((Day s + i) * msPerDay)) 0 0 0 0 = At ((Day s + i) * msPerDay)"
    and "setDate (At ((Day s + i) * msPerDay))
           (jsub (jadd (getDate (At ((Day s + i) * msPerDay))) (Fin (of_int m))) (Fin 1))
         = At ((Day s + i + m - 1) * msPerDay)"
    and "setHours4 (At ((Day s + i + m - 1) * msPerDay)) 23 59 59 999
         = At ((Day s + i + m) * msPerDay - 1)"
proof -
  have v: "validTime ((Day s + k) * msPerDay)" if "0 \<le> k" "k < i + m" for k
  proof -
    have "Day s * msPerDay \<le> (Day s + k) * msPerDay" using that(1) by (simp add: msPerDay_def)
    moreover have "(Day s + k) * msPerDay \<le> (Day s + i + m) * msPerDay - 1"
      using that(2) by (simp add: msPerDay_def)
    ultimately show ?thesis using assms(1,2) by (simp add: validTime_iff)
  qed
  have mt0: "MakeTime 0 0 0 0 = 0" by (simp add: MakeTime_def)
  have mt1: "MakeTime 23 59 59 999 = msPerDay - 1"
    by (simp add: MakeTime_def msPerDay_def msPerHour_def msPerMinute_def msPerSecond_def)
  show "setHours4 (At s) 0 0 0 0 = At (Day s * msPerDay)"
    using assms(1) by (simp add: setHours4_At mt0)
  have vi: "validTime ((Day s + i) * msPerDay)" using v[of i] assms(3,4) by simp
  have "setDate (At (Day s * msPerDay)) (Fin (of_int (DateFromTime (Day s * msPerDay) + i)))
        = At (Day s * msPerDay + i * msPerDay)"
    using vi by (intro setDate_At) (simp add: algebra_simps)
  then show "setDate (At (Day s * msPerDay)) (jadd (getDate (At (Day s * msPerDay))) (Fin (of_int i)))
         = At ((Day s + i) * msPerDay)"
    by (simp add: getDate_def algebra_simps)
  show "setHours4 (At ((Day s + i) * msPerDay)) 0 0 0 0 = At ((Day s + i) * msPerDay)"
    using vi by (simp add: setHours4_At mt0)
  have vm: "validTime ((Day s + i + m - 1) * msPerDay)"
    using v[of "i + m - 1"] assms(3,4) by (simp add: algebra_simps)
  have "setDate (At ((Day s + i) * msPerDay))
          (Fin (of_int (DateFromTime ((Day s + i) * msPerDay) + (m - 1))))
        = At ((Day s + i) * msPerDay + (m - 1) * msPerDay)"
    using vm by (intro setDate_At) (simp add: algebra_simps)
  then show "setDate (At ((Day s + i) * msPerDay))
           (jsub (jadd (getDate (At ((Day s + i) * msPerDay))) (Fin (of_int m))) (Fin 1))
         = At ((Day s + i + m - 1) * msPerDay)"
    by (simp add: getDate_def algebra_simps)
  have e: "Day ((Day s + i + m - 1) * msPerDay) * msPerDay + MakeTime 23 59 59 999
           = (Day s + i + m) * msPerDay - 1"
    unfolding Day_mult mt1 by (simp add: algebra_simps)
  show "setHours4 (At ((Day s + i + m - 1) * msPerDay)) 23 59 59 999
         = At ((Day s + i + m) * msPerDay - 1)"
    using setHours4_At[of "(Day s + i + m - 1) * msPerDay" 23 59 59 999] assms(2)
    unfolding e by simp
qed

lemma snapDates_days:
  assumes vm: "viewMode = DAY \<or> viewMode = WEEK"
    and q: "q = (if viewMode = WEEK then U / 7 else U)" "0 < q"
    and v: "validTime (Day s * msPerDay)" "validTime ((Day s + i + m) * msPerDay - 1)"
    and i: "0 \<le> i" and m: "1 \<le> m"
  shows "snapDates viewMode (Fin (of_int i * q)) (Fin (of_int m * q)) (At s) (Fin U) rawStart rawEnd
         = \<lparr>newStartDate = At ((Day s + i) * msPerDay),
            newEndDate = At ((Day s + i + m) * msPerDay - 1)\<rparr>"
proof -
  note c = day_chain[OF v i m]
  have "jdiv (Fin (of_int i * q)) (Fin q) = Fin (of_int i)" using q(2) by simp
  then have r1: "jround (jdiv (Fin (of_int i * q)) (Fin q)) = Fin (of_int i)"
    by (simp only: jround_of_int)
  have "jdiv (Fin (of_int m * q)) (Fin q) = Fin (of_int m)" using q(2) by simp
  then have "jround (jdiv (Fin (of_int m * q)) (Fin q)) = Fin (of_int m)"
    by (simp only: jround_of_int)
  then have r2: "jmax (Fin 1) (jround (jdiv (Fin (of_int m * q)) (Fin q))) = Fin (of_int m)"
    using m by (simp add: max_def)
  show ?thesis
  proof (cases "viewMode = WEEK")
    case True
    have ppd: "jdiv (Fin U) (Fin 7) = Fin q" using True q(1) by simp
    show ?thesis
      unfolding snapDates_def True Let_def ppd r1 r2 c by simp
  next
    case False
    then have d: "viewMode = DAY" "U = q" using vm q(1) by simp_all
    show ?thesis
      unfolding snapDates_def d Let_def r1 r2 c by simp
  qed
qed

lemma calculateDatesFromPosition_days:
  assumes vm: "viewMode = DAY \<or> viewMode = WEEK"
    and q: "q = (if viewMode = WEEK then U / 7 else U)" "0 < q"
    and v: "validTime (Day s * msPerDay)" "validTime ((Day s + i + m) * msPerDay - 1)"
    and i: "0 \<le> i" and m: "1 \<le> m"
  shows "calculateDatesFromPosition (Fin (of_int i * q)) (Fin (of_int m * q)) (At s) (At e)
           (Fin N) (Fin U) viewMode
         = \<lparr>newStartDate = At (max s ((Day s + i) * msPerDay)),
            newEndDate = At (min e ((Day s + i + m) * msPerDay - 1))\<rparr>"
  unfolding calculateDatesFromPosition_def Let_def snapDates_days[OF vm q v i m]
  by (simp add: max_def min_def)

lemma calculateTaskPixelPosition_days:
  assumes vm: "viewMode = DAY \<or> viewMode = WEEK"
    and q: "q = (if viewMode = WEEK then U / 7 else U)" "20 \<le> q"
    and w: "dayWindow s e ts te" and N: "0 < N"
    and grid: "of_int (Day te - Day s + 1) * q \<le> N * U"
  shows "calculateTaskPixelPosition
           \<lparr>task_startDate = DateObject (At ts), task_endDate = DateObject (At te)\<rparr>
           (At s) (At e) (Fin N) (Fin U) viewMode
         = \<lparr>leftPx = Fin (of_int (Day ts - Day s) * q),
            widthPx = Fin (of_int (Day te - Day ts + 1) * q)\<rparr>"
proof -
  note f = dayWindow_facts[OF w]
  have U: "0 < U" using q by (auto split: if_splits)
  define i where "i = Day ts - Day s"
  define m where "m = Day te - Day ts + 1"
  have a: "alignedPosition (At ts) (At te) (At s) (At e) (Fin N) (Fin U) viewMode
           = \<lparr>leftPx = Fin (of_int i * q), widthPx = Fin (of_int m * q)\<rparr>"
    using vm q(1) alignedPosition_DAY[OF w N U] alignedPosition_WEEK[OF w N U]
    by (auto simp: i_def m_def)
  have m1: "1 \<le> m" using f(11) by (simp add: m_def)
  have "q \<le> of_int m * q" using m1 q(2) by (simp add: mult_le_cancel_right1)
  then have "20 \<le> of_int m * q" using q(2) by linarith
  then have mn: "max 20 (of_int m * q) = of_int m * q" by (simp add: max_def)
  have "i + m = Day te - Day s + 1" by (simp add: i_def m_def)
  then have "of_int (i + m) * q \<le> N * U" using grid by (simp only:)
  then have cap: "min (N * U - of_int i * q) (of_int m * q) = of_int m * q"
    by (simp add: algebra_simps)
  have mw: "minWidthByViewMode viewMode = Fin 20"
    using vm by (auto simp: minWidthByViewMode_def)
  show ?thesis
    unfolding calculateTaskPixelPosition_def Let_def i_def[symmetric] m_def[symmetric]
    by (simp add: a mw mn cap)
qed

text \<open>
  Claim C1 as amended.  In the day and week views, for valid dates from the year 100
  on, an interval inside the window, a day at least 20 pixels wide (\<open>unitWidth\<close> at
  least 20 in the day view and 140 in the week view) and the last day of the interval
  inside the grid of \<open>totalUnits\<close> units, the round trip returns the snapped form of
  the interval (the start of the day of its start, the end of the day of its end)
  clamped to the window, so that each end differs from the snapped form by less than
  one day.
\<close>

theorem round_trip_day_week:
  fixes N U :: rat and s e ts te :: int and viewMode :: ViewMode
  defines "r \<equiv> roundTrip (At ts) (At te) (At s) (At e) (Fin N) (Fin U) viewMode"
  assumes vm: "viewMode = DAY \<or> viewMode = WEEK"
    and w: "plainTime s" "plainTime e" "s \<le> ts" "ts \<le> te" "te \<le> e"
    and N: "0 < N"
    and quantum: "20 \<le> U / of_int (unitDays viewMode)"
    and grid: "of_int (Day te - Day s + 1) \<le> N * of_int (unitDays viewMode)"
  shows "startOfDay (At ts) = At (Day ts * msPerDay) \<and>
         endOfDay (At te) = At (Day te * msPerDay + msPerDay - 1) \<and>
         newStartDate r = At (max s (Day ts * msPerDay)) \<and>
         newEndDate r = At (min e (Day te * msPerDay + msPerDay - 1)) \<and>
         \<bar>max s (Day ts * msPerDay) - Day ts * msPerDay\<bar> < msPerDay \<and>
         \<bar>min e (Day te * msPerDay + msPerDay - 1) - (Day te * msPerDay + msPerDay - 1)\<bar> < msPerDay"
proof -
  have dw: "dayWindow s e ts te" using w by (simp add: dayWindow_def)
  note f = dayWindow_facts[OF dw]
  define q where "q = (if viewMode = WEEK then U / 7 else U)"
  have q20: "20 \<le> q"
    using quantum by (cases "viewMode = WEEK") (simp_all add: q_def unitDays_def)
  have q: "q = (if viewMode = WEEK then U / 7 else U)" "20 \<le> q" "0 < q"
    using q20 by (simp_all add: q_def)
  define i where "i = Day ts - Day s"
  define m where "m = Day te - Day ts + 1"
  have i0: "0 \<le> i" and m1: "1 \<le> m" using f(10,11) by (simp_all add: i_def m_def)
  have "of_int (Day te - Day s + 1) * q \<le> N * of_int (unitDays viewMode) * q"
    using grid q(3) by (simp add: mult_right_mono)
  moreover have "of_int (unitDays viewMode) * q = U" by (simp add: q_def unitDays_def)
  ultimately have g: "of_int (Day te - Day s + 1) * q \<le> N * U" by (simp add: mult.assoc)
  have px: "calculateTaskPixelPosition
              \<lparr>task_startDate = DateObject (At ts), task_endDate = DateObject (At te)\<rparr>
              (At s) (At e) (Fin N) (Fin U) viewMode
            = \<lparr>leftPx = Fin (of_int i * q), widthPx = Fin (of_int m * q)\<rparr>"
    unfolding i_def m_def by (rule calculateTaskPixelPosition_days[OF vm q(1,2) dw N g])
  have e1: "(Day s + i) * msPerDay = Day ts * msPerDay" by (simp add: i_def)
  have e2: "(Day s + i + m) * msPerDay - 1 = Day te * msPerDay + msPerDay - 1"
    by (simp add: i_def m_def algebra_simps)
  have v2: "validTime ((Day s + i + m) * msPerDay - 1)" unfolding e2 by (rule f(9))
  have r: "r = \<lparr>newStartDate = At (max s (Day ts * msPerDay)),
                newEndDate = At (min e (Day te * msPerDay + msPerDay - 1))\<rparr>"
    unfolding r_def roundTrip_def Let_def px
    using calculateDatesFromPosition_days[OF vm q(1,3) f(7) v2 i0 m1, of e N]
    by (simp add: e1 e2)
  have mt1: "MakeTime 23 59 59 999 = msPerDay - 1"
    by (simp add: MakeTime_def msPerDay_def msPerHour_def msPerMinute_def msPerSecond_def)
  have sd: "startOfDay (At ts) = At (Day ts * msPerDay)" using f(5) by (rule startOfDay_At)
  have ed: "endOfDay (At te) = At (Day te * msPerDay + msPerDay - 1)"
    using setHours4_At[of te 23 59 59 999] f(9) by (simp add: endOfDay_def mt1 algebra_simps)
  have b1: "\<bar>max s (Day ts * msPerDay) - Day ts * msPerDay\<bar> < msPerDay"
    using Day_bounds[of ts] Day_bounds[of s] w(3) f(10) by (auto simp: max_def msPerDay_def)
  have b2: "\<bar>min e (Day te * msPerDay + msPerDay - 1) - (Day te * msPerDay + msPerDay - 1)\<bar> < msPerDay"
    using Day_bounds[of te] w(5) by (auto simp: min_def msPerDay_def)
  show ?thesis using r sd ed b1 b2 by simp
qed

lemma plainTime_window_2024:
  "plainTime 1704067200000" "plainTime 1706659200000"
  by code_simp+

theorem round_trip_day_week_witness:
  "plainTime 1704067200000 \<and> plainTime 1706659200000 \<and>
   (1704067200000 :: int) \<le> 1704258000000 \<and> (1704258000000 :: int) \<le> 1704438000000 \<and>
   (1704438000000 :: int) \<le> 1706659200000 \<and>
   (20 :: rat) \<le> 150 / of_int (unitDays DAY) \<and>
   (of_int (Day 1704438000000 - Day 1704067200000 + 1) :: rat) \<le> 30 * of_int (unitDays DAY) \<and>
   roundTrip (At 1704258000000) (At 1704438000000) (At 1704067200000) (At 1706659200000)
     (Fin 30) (Fin 150) DAY
   = \<lparr>newStartDate = At 1704240000000, newEndDate = At 1704499199999\<rparr> \<and>
   startOfDay (At 1704258000000) = At 1704240000000 \<and>
   endOfDay (At 1704438000000) = At 1704499199999"
proof -
  have d: "Day 1704438000000 = 19727" "Day 1704067200000 = 19723" "Day 1704258000000 = 19725"
    by (simp_all add: Day_def msPerDay_def)
  have q: "(20 :: rat) \<le> 150 / of_int (unitDays DAY)" by (simp add: unitDays_def)
  have g: "(of_int (Day 1704438000000 - Day 1704067200000 + 1) :: rat) \<le> 30 * of_int (unitDays DAY)"
    by (simp add: d unitDays_def)
  note t = round_trip_day_week[of DAY 1704067200000 1706659200000 1704258000000 1704438000000
             30 150, OF _ plainTime_window_2024 _ _ _ _ q g]
  have "roundTrip (At 1704258000000) (At 1704438000000) (At 1704067200000) (At 1706659200000)
          (Fin 30) (Fin 150) DAY
        = \<lparr>newStartDate = At 1704240000000, newEndDate = At 1704499199999\<rparr> \<and>
        startOfDay (At 1704258000000) = At 1704240000000 \<and>
        endOfDay (At 1704438000000) = At 1704499199999"
    using t by (simp add: d msPerDay_def DateInterval.equality)
  then show ?thesis using plainTime_window_2024 q g by simp
qed

end
